theory Spec2Isabelle
  imports Main "HOL-Library.Word" "HOL-Library.Multiset"
begin

unbundle bit_operations_syntax

section \<open>Data model\<close>

text \<open>
  The record store of \<^verbatim>\<open>database.js\<close> keeps four collections, each a JSON array in
  insertion order. Record ids are the strings made by \<^verbatim>\<open>DB.generateId\<close> (clock reading
  plus random suffix); they are modelled as natural numbers drawn from a counter kept with
  the store, so an id is never empty and \<^verbatim>\<open>null\<close> is \<open>None\<close>. Numbers are JavaScript
  numbers holding integers and are modelled as \<open>int\<close>; the divisions by powers of two
  that the bracket engine performs are exact on the participant counts the engine admits
  (powers of two), where they agree with \<open>div\<close>. Display-only fields (names, schedule,
  venue, notes, time stamps) are left out.
\<close>

type_synonym ident = nat

datatype tournament_status = Draft | Registration | Ongoing | Finished

datatype participant_status = Active | Eliminated | Withdrawn

datatype match_status = Pending | Upcoming | Live | Completed

record tournament =
  t_id :: ident
  t_participantCount :: int
  t_totalRounds :: int
  t_currentRound :: int
  t_status :: tournament_status
  t_endDate :: "string option"

record participant =
  p_id :: ident
  p_tournamentId :: ident
  p_seed :: "int option"
  p_status :: participant_status
  p_eliminatedAtRound :: "int option"

record match =
  m_id :: ident
  m_tournamentId :: ident
  m_round :: int
  m_matchNumber :: int
  m_participant1Id :: "ident option"
  m_participant2Id :: "ident option"
  m_winnerId :: "ident option"
  m_score1 :: "int option"
  m_score2 :: "int option"
  m_status :: match_status

record result =
  r_id :: ident
  r_tournamentId :: ident
  r_championId :: ident
  r_runnerUpId :: ident
  r_thirdPlaceIds :: "ident list"
  r_totalMatches :: int
  r_totalParticipants :: int

record db =
  tournaments :: "tournament list"
  participants :: "participant list"
  matches :: "match list"
  results :: "result list"
  nextId :: nat

text \<open>
  Every failure of the engine is a thrown \<^verbatim>\<open>Error\<close> with a message; the constructors are
  named after the error kinds of the specification. \<open>TypeError\<close> is the runtime error of
  reading a field of \<^verbatim>\<open>null\<close>. A failing call keeps the writes it made before the throw, so
  every operation returns the store together with its outcome.
\<close>

datatype error =
    NotFound
  | AlreadyGenerated
  | InvalidTopology
  | IncompleteRoster
  | MatchNotReady
  | IncompleteMatch
  | InvalidScore
  | DrawNotAllowed
  | CannotResetCompleted
  | TypeError
  | BracketNotGenerated
  | InvalidStatus

section \<open>Record store\<close>

definition getById :: "('a \<Rightarrow> ident) \<Rightarrow> 'a list \<Rightarrow> ident \<Rightarrow> 'a option" where
  "getById idf items i = find (\<lambda>item. idf item = i) items"

text \<open>\<^verbatim>\<open>DB.update\<close> merges the partial record into the first item with the id and leaves the
  collection as it is when there is none.\<close>

fun update :: "('a \<Rightarrow> ident) \<Rightarrow> ident \<Rightarrow> ('a \<Rightarrow> 'a) \<Rightarrow> 'a list \<Rightarrow> 'a list" where
  "update idf i f [] = []"
| "update idf i f (x # xs) = (if idf x = i then f x # xs else x # update idf i f xs)"

definition deleteWhere :: "('a \<Rightarrow> bool) \<Rightarrow> 'a list \<Rightarrow> 'a list" where
  "deleteWhere criteria items = filter (\<lambda>item. \<not> criteria item) items"

definition insert_match :: "match \<Rightarrow> db \<Rightarrow> match \<times> db" where
  "insert_match item d =
     (let newItem = item\<lparr>m_id := nextId d\<rparr>
      in (newItem, d\<lparr>matches := matches d @ [newItem], nextId := Suc (nextId d)\<rparr>))"

definition insert_result :: "result \<Rightarrow> db \<Rightarrow> result \<times> db" where
  "insert_result item d =
     (let newItem = item\<lparr>r_id := nextId d\<rparr>
      in (newItem, d\<lparr>results := results d @ [newItem], nextId := Suc (nextId d)\<rparr>))"

text \<open>\<^verbatim>\<open>Array.prototype.sort\<close> is a stable sort; with a consistent comparator its result is
  the one of stable insertion sort, an element going before the first one it does not
  compare greater than.\<close>

fun insort_cmp :: "('a \<Rightarrow> 'a \<Rightarrow> int) \<Rightarrow> 'a \<Rightarrow> 'a list \<Rightarrow> 'a list" where
  "insort_cmp cmp x [] = [x]"
| "insort_cmp cmp x (y # ys) = (if cmp x y \<le> 0 then x # y # ys else y # insort_cmp cmp x ys)"

definition sort_cmp :: "('a \<Rightarrow> 'a \<Rightarrow> int) \<Rightarrow> 'a list \<Rightarrow> 'a list" where
  "sort_cmp cmp xs = foldr (insort_cmp cmp) xs []"

text \<open>Reading an array at a number: \<^verbatim>\<open>undefined\<close> outside the range.\<close>

definition at_index :: "'a list \<Rightarrow> int \<Rightarrow> 'a option" where
  "at_index xs i = (if 0 \<le> i \<and> i < int (length xs) then Some (xs ! nat i) else None)"

section \<open>Participant service\<close>

definition byMatchNumber :: "match \<Rightarrow> match \<Rightarrow> int" where
  "byMatchNumber a b = m_matchNumber a - m_matchNumber b"

text \<open>\<^verbatim>\<open>a.seed || 999\<close>: a seed that is \<^verbatim>\<open>null\<close> or 0 counts as 999.\<close>

definition seedOr999 :: "participant \<Rightarrow> int" where
  "seedOr999 p = (case p_seed p of None \<Rightarrow> 999 | Some s \<Rightarrow> if s = 0 then 999 else s)"

definition getByTournament :: "ident \<Rightarrow> db \<Rightarrow> participant list" where
  "getByTournament tid d =
     sort_cmp (\<lambda>a b. seedOr999 a - seedOr999 b)
       (filter (\<lambda>p. p_tournamentId p = tid) (participants d))"

definition eliminate :: "ident \<Rightarrow> int \<Rightarrow> db \<Rightarrow> db" where
  "eliminate i round d =
     d\<lparr>participants := update p_id i
          (\<lambda>p. p\<lparr>p_status := Eliminated, p_eliminatedAtRound := Some round\<rparr>) (participants d)\<rparr>"

section \<open>Bracket service\<close>

subsection \<open>Advancement\<close>

text \<open>The loop of \<^verbatim>\<open>getFirstMatchNumberOfRound\<close>: \<^verbatim>\<open>for (r = 1; r < round; r++)\<close>. The
  source adds the quotient \<^verbatim>\<open>participantCount / Math.pow(2, r)\<close> of two numbers; the model
  adds \<open>participantCount div 2 ^ r\<close>, which is that quotient exactly when \<open>2 ^ r\<close> divides
  the participant count, so for every \<open>r\<close> the loop meets when
  \<open>participantCount = 2 ^ totalRounds\<close> and \<open>round \<le> totalRounds + 1\<close>. The properties
  about the destination of a winner are stated for such tournaments and rounds.\<close>

function firstMatchNumberLoop :: "int \<Rightarrow> int \<Rightarrow> int \<Rightarrow> int \<Rightarrow> int" where
  "firstMatchNumberLoop participantCount round r matchNumber =
     (if r < round
      then firstMatchNumberLoop participantCount round (r + 1)
             (matchNumber + participantCount div 2 ^ nat r)
      else matchNumber)"
  by pat_completeness auto
termination
  by (relation "measure (\<lambda>(pc, round, r, mn). nat (round - r))") auto

declare firstMatchNumberLoop.simps [simp del]

definition getFirstMatchNumberOfRound :: "ident \<Rightarrow> int \<Rightarrow> db \<Rightarrow> int option" where
  "getFirstMatchNumberOfRound tid round d =
     (case getById t_id (tournaments d) tid of
        None \<Rightarrow> None
      | Some tournament \<Rightarrow> Some (firstMatchNumberLoop (t_participantCount tournament) round 1 1))"

text \<open>The winner's slot: \<^verbatim>\<open>updates\<close> holds one participant id, and the status once the
  merged record has both. \<^verbatim>\<open>firstMatchOfRound\<close> of the source is computed and never read.\<close>

definition slotUpdate :: "int \<Rightarrow> ident \<Rightarrow> match \<Rightarrow> match" where
  "slotUpdate matchIndexInRound winnerId m =
     (if matchIndexInRound mod 2 = 0 then m\<lparr>m_participant1Id := Some winnerId\<rparr>
      else m\<lparr>m_participant2Id := Some winnerId\<rparr>)"

definition advanceUpdates :: "int \<Rightarrow> ident \<Rightarrow> match option \<Rightarrow> match \<Rightarrow> match" where
  "advanceUpdates matchIndexInRound winnerId currentData item =
     (let bothSet =
            (case currentData of
               None \<Rightarrow> False
             | Some c \<Rightarrow>
                 m_participant1Id (slotUpdate matchIndexInRound winnerId c) \<noteq> None \<and>
                 m_participant2Id (slotUpdate matchIndexInRound winnerId c) \<noteq> None);
          item' = slotUpdate matchIndexInRound winnerId item
      in if bothSet then item'\<lparr>m_status := Upcoming\<rparr> else item')"

definition nextMatchesOf :: "ident \<Rightarrow> int \<Rightarrow> db \<Rightarrow> match list" where
  "nextMatchesOf tid nextRound d =
     sort_cmp byMatchNumber
       (filter (\<lambda>m. m_tournamentId m = tid \<and> m_round m = nextRound) (matches d))"

definition advanceWinner :: "match \<Rightarrow> ident \<Rightarrow> db \<Rightarrow> (error + unit) \<times> db" where
  "advanceWinner match winnerId d =
     (case getById t_id (tournaments d) (m_tournamentId match) of
        None \<Rightarrow> (Inl TypeError, d)
      | Some tournament \<Rightarrow>
          let nextRound = m_round match + 1 in
          if nextRound > t_totalRounds tournament then (Inr (), d)
          else
            (case (getFirstMatchNumberOfRound (m_tournamentId match) (m_round match) d,
                   getFirstMatchNumberOfRound (m_tournamentId match) nextRound d) of
               (Some firstOfRound, Some firstOfNext) \<Rightarrow>
                 let matchIndexInRound = m_matchNumber match - firstOfRound;
                     nextMatchIndex = matchIndexInRound div 2;
                     nextMatches = nextMatchesOf (m_tournamentId match) nextRound d
                 in (case at_index nextMatches nextMatchIndex of
                       None \<Rightarrow> (Inr (), d)
                     | Some nextMatch \<Rightarrow>
                         let currentData = getById m_id (matches d) (m_id nextMatch)
                         in (Inr (),
                             d\<lparr>matches := update m_id (m_id nextMatch)
                                  (advanceUpdates matchIndexInRound winnerId currentData)
                                  (matches d)\<rparr>))
             | _ \<Rightarrow> (Inl TypeError, d)))"

subsection \<open>Current round\<close>

text \<open>The loop of \<^verbatim>\<open>updateCurrentRound\<close> over \<^verbatim>\<open>round = 1 .. totalRounds\<close>; it stops at the
  first round with a match that is not completed.\<close>

function currentRoundLoop :: "tournament \<Rightarrow> match list \<Rightarrow> int \<Rightarrow> db \<Rightarrow> db" where
  "currentRoundLoop tournament ms round d =
     (if round \<le> t_totalRounds tournament
      then
        (let roundMatches = filter (\<lambda>m. m_round m = round) ms;
             allCompleted = list_all (\<lambda>m. m_status m = Completed) roundMatches
         in if \<not> allCompleted
            then (if t_currentRound tournament \<noteq> round
                  then d\<lparr>tournaments := update t_id (t_id tournament)
                           (\<lambda>t. t\<lparr>t_currentRound := round\<rparr>) (tournaments d)\<rparr>
                  else d)
            else currentRoundLoop tournament ms (round + 1) d)
      else d)"
  by pat_completeness auto
termination
  by (relation "measure (\<lambda>(t, ms, round, d). nat (t_totalRounds t + 1 - round))") auto

declare currentRoundLoop.simps [simp del]

definition updateCurrentRound :: "ident \<Rightarrow> db \<Rightarrow> (error + unit) \<times> db" where
  "updateCurrentRound tid d =
     (case getById t_id (tournaments d) tid of
        None \<Rightarrow> (Inl TypeError, d)
      | Some tournament \<Rightarrow>
          (Inr (),
           currentRoundLoop tournament (filter (\<lambda>m. m_tournamentId m = tid) (matches d)) 1 d))"

subsection \<open>Finalization\<close>

definition semiFinalLoser :: "match \<Rightarrow> ident option" where
  "semiFinalLoser m =
     (if m_participant1Id m = m_winnerId m then m_participant2Id m else m_participant1Id m)"

definition thirdPlaceIdsOf :: "tournament \<Rightarrow> match list \<Rightarrow> ident list" where
  "thirdPlaceIdsOf tournament ms =
     (let semiFinalMatches = filter (\<lambda>m. m_round m = t_totalRounds tournament - 1) ms
      in List.map_filter (\<lambda>x. x)
           (map semiFinalLoser (filter (\<lambda>m. m_winnerId m \<noteq> None) semiFinalMatches)))"

text \<open>\<open>today\<close> is the date the clock gives when the tournament is closed.\<close>

definition finalizeTournament ::
  "string \<Rightarrow> ident \<Rightarrow> ident \<Rightarrow> ident \<Rightarrow> db \<Rightarrow> (error + unit) \<times> db" where
  "finalizeTournament today tid championId runnerUpId d =
     (case getById t_id (tournaments d) tid of
        None \<Rightarrow> (Inl TypeError, d)
      | Some tournament \<Rightarrow>
          let ms = filter (\<lambda>m. m_tournamentId m = tid) (matches d);
              thirdPlaceIds = thirdPlaceIdsOf tournament ms;
              (r, d1) = insert_result
                 \<lparr>r_id = 0, r_tournamentId = tid, r_championId = championId,
                  r_runnerUpId = runnerUpId, r_thirdPlaceIds = thirdPlaceIds,
                  r_totalMatches = int (length ms),
                  r_totalParticipants = t_participantCount tournament\<rparr> d
          in (Inr (),
              d1\<lparr>tournaments := update t_id tid
                   (\<lambda>t. t\<lparr>t_status := Finished,
                           t_currentRound := t_totalRounds tournament,
                           t_endDate := Some today\<rparr>) (tournaments d1)\<rparr>))"

subsection \<open>Scoring a match\<close>

definition scoreUpdate :: "int \<Rightarrow> int \<Rightarrow> ident \<Rightarrow> match \<Rightarrow> match" where
  "scoreUpdate score1 score2 winnerId m =
     m\<lparr>m_score1 := Some score1, m_score2 := Some score2,
       m_winnerId := Some winnerId, m_status := Completed\<rparr>"

definition updateScore ::
  "string \<Rightarrow> ident \<Rightarrow> int \<Rightarrow> int \<Rightarrow> db \<Rightarrow> (error + match option) \<times> db" where
  "updateScore today matchId score1 score2 d =
     (case getById m_id (matches d) matchId of
        None \<Rightarrow> (Inl NotFound, d)
      | Some match \<Rightarrow>
          if m_status match = Pending then (Inl MatchNotReady, d)
          else
            (case (m_participant1Id match, m_participant2Id match) of
               (Some participant1Id, Some participant2Id) \<Rightarrow>
                 if score1 < 0 \<or> score2 < 0 then (Inl InvalidScore, d)
                 else if score1 = score2 then (Inl DrawNotAllowed, d)
                 else
                   let winnerId = (if score1 > score2 then participant1Id else participant2Id);
                       loserId = (if score1 > score2 then participant2Id else participant1Id);
                       d1 = d\<lparr>matches := update m_id matchId
                               (scoreUpdate score1 score2 winnerId) (matches d)\<rparr>;
                       tournament = getById t_id (tournaments d1) (m_tournamentId match);
                       d2 = eliminate loserId (m_round match) d1
                   in (case advanceWinner match winnerId d2 of
                         (Inl e, d3) \<Rightarrow> (Inl e, d3)
                       | (Inr _, d3) \<Rightarrow>
                           (case tournament of
                              None \<Rightarrow> (Inl TypeError, d3)
                            | Some t \<Rightarrow>
                                (case (if m_round match = t_totalRounds t
                                       then finalizeTournament today (m_tournamentId match)
                                              winnerId loserId d3
                                       else updateCurrentRound (m_tournamentId match) d3) of
                                   (Inl e, d4) \<Rightarrow> (Inl e, d4)
                                 | (Inr _, d4) \<Rightarrow>
                                     (Inr (getById m_id (matches d4) matchId), d4))))
             | _ \<Rightarrow> (Inl IncompleteMatch, d)))"

subsection \<open>Generating the bracket\<close>

text \<open>\<^verbatim>\<open>n > 0 && (n & (n - 1)) === 0\<close>: the bitwise operator works on the 32-bit integers
  of its operands.\<close>

definition isPowerOfTwo :: "int \<Rightarrow> bool" where
  "isPowerOfTwo n = (n > 0 \<and> (word_of_int n :: 32 word) AND word_of_int (n - 1) = 0)"

text \<open>\<^verbatim>\<open>Math.log2\<close> is only reached with a participant count that passed the power-of-two
  check, where it is the exponent.\<close>

function log2 :: "int \<Rightarrow> int" where
  "log2 n = (if n \<le> 1 then 0 else 1 + log2 (n div 2))"
  by pat_completeness auto
termination
  by (relation "measure nat") auto

declare log2.simps [simp del]

definition newMatch :: "ident \<Rightarrow> int \<Rightarrow> int \<Rightarrow> match" where
  "newMatch tid round matchNumber =
     \<lparr>m_id = 0, m_tournamentId = tid, m_round = round, m_matchNumber = matchNumber,
      m_participant1Id = None, m_participant2Id = None, m_winnerId = None,
      m_score1 = None, m_score2 = None, m_status = Pending\<rparr>"

text \<open>The inner loop runs \<^verbatim>\<open>matchesInRound\<close> times; the state is the store, the array
  \<^verbatim>\<open>matches\<close> and the counter \<^verbatim>\<open>matchNumber\<close>.\<close>

fun generateMatches :: "ident \<Rightarrow> int \<Rightarrow> nat \<Rightarrow> db \<times> match list \<times> int \<Rightarrow> db \<times> match list \<times> int" where
  "generateMatches tid round 0 s = s"
| "generateMatches tid round (Suc n) (d, ms, matchNumber) =
     (let (m, d') = insert_match (newMatch tid round matchNumber) d
      in generateMatches tid round n (d', ms @ [m], matchNumber + 1))"

function generateRounds ::
  "ident \<Rightarrow> int \<Rightarrow> int \<Rightarrow> int \<Rightarrow> db \<times> match list \<times> int \<Rightarrow> db \<times> match list \<times> int" where
  "generateRounds tid participantCount totalRounds round s =
     (if round \<le> totalRounds
      then generateRounds tid participantCount totalRounds (round + 1)
             (generateMatches tid round (nat (participantCount div 2 ^ nat round)) s)
      else s)"
  by pat_completeness auto
termination
  by (relation "measure (\<lambda>(tid, pc, totalRounds, round, s). nat (totalRounds + 1 - round))") auto

declare generateRounds.simps [simp del]

definition generate :: "ident \<Rightarrow> db \<Rightarrow> (error + match list) \<times> db" where
  "generate tid d =
     (case getById t_id (tournaments d) tid of
        None \<Rightarrow> (Inl NotFound, d)
      | Some tournament \<Rightarrow>
          if t_status tournament \<noteq> Draft then (Inl AlreadyGenerated, d)
          else
            let participantCount = t_participantCount tournament in
            if \<not> isPowerOfTwo participantCount then (Inl InvalidTopology, d)
            else
              let totalRounds = log2 participantCount;
                  (d1, ms, matchNumber) = generateRounds tid participantCount totalRounds 1 (d, [], 1)
              in (Inr ms,
                  d1\<lparr>tournaments := update t_id tid
                       (\<lambda>t. t\<lparr>t_status := Registration, t_totalRounds := totalRounds\<rparr>)
                       (tournaments d1)\<rparr>))"

subsection \<open>Seeding the first round\<close>

text \<open>A seed is set when it is neither \<^verbatim>\<open>null\<close> nor 0.\<close>

definition seeded :: "participant \<Rightarrow> bool" where
  "seeded p = (case p_seed p of None \<Rightarrow> False | Some s \<Rightarrow> s \<noteq> 0)"

definition seedOf :: "participant \<Rightarrow> int" where
  "seedOf p = (case p_seed p of None \<Rightarrow> 0 | Some s \<Rightarrow> s)"

definition bySeed :: "participant \<Rightarrow> participant \<Rightarrow> int" where
  "bySeed a b =
     (if seeded a \<and> seeded b then seedOf a - seedOf b
      else if seeded a then - 1
      else if seeded b then 1
      else 0)"

text \<open>\<^verbatim>\<open>for (i = 0; i < n / 2; i++)\<close> with the real quotient: the loop runs while \<open>2 * i < n\<close>.\<close>

function seedPairingsLoop :: "'a list \<Rightarrow> nat \<Rightarrow> ('a \<times> 'a) list \<Rightarrow> ('a \<times> 'a) list" where
  "seedPairingsLoop ps i pairs =
     (if 2 * i < length ps
      then seedPairingsLoop ps (i + 1) (pairs @ [(ps ! i, ps ! (length ps - 1 - i))])
      else pairs)"
  by pat_completeness auto
termination
  by (relation "measure (\<lambda>(ps, i, pairs). length ps - i)") auto

declare seedPairingsLoop.simps [simp del]

definition createSeedPairings :: "'a list \<Rightarrow> ('a \<times> 'a) list" where
  "createSeedPairings ps = seedPairingsLoop ps 0 []"

definition assignPair :: "participant \<times> participant \<Rightarrow> match \<Rightarrow> match" where
  "assignPair pair m =
     m\<lparr>m_participant1Id := Some (p_id (fst pair)),
       m_participant2Id := Some (p_id (snd pair)),
       m_status := Upcoming\<rparr>"

text \<open>The body of the \<^verbatim>\<open>forEach\<close> over the pairs and their indices.\<close>

definition assignStep :: "match list \<Rightarrow> nat \<times> participant \<times> participant \<Rightarrow> db \<Rightarrow> db" where
  "assignStep firstRoundMatches ip d =
     (case at_index firstRoundMatches (int (fst ip)) of
        None \<Rightarrow> d
      | Some fm \<Rightarrow> d\<lparr>matches := update m_id (m_id fm) (assignPair (snd ip)) (matches d)\<rparr>)"

definition firstRoundOf :: "ident \<Rightarrow> db \<Rightarrow> match list" where
  "firstRoundOf tid d = filter (\<lambda>m. m_tournamentId m = tid \<and> m_round m = 1) (matches d)"

definition assignParticipants :: "ident \<Rightarrow> db \<Rightarrow> (error + match list) \<times> db" where
  "assignParticipants tid d =
     (case getById t_id (tournaments d) tid of
        None \<Rightarrow> (Inl NotFound, d)
      | Some tournament \<Rightarrow>
          let ps = getByTournament tid d in
          if int (length ps) \<noteq> t_participantCount tournament then (Inl IncompleteRoster, d)
          else
            let firstRoundMatches = sort_cmp byMatchNumber (firstRoundOf tid d);
                sortedParticipants = sort_cmp bySeed ps;
                pairedParticipants = createSeedPairings sortedParticipants;
                d1 = fold (assignStep firstRoundMatches) (enumerate 0 pairedParticipants) d
            in (Inr (firstRoundOf tid d1), d1))"

subsection \<open>Reset\<close>

definition restoreParticipant :: "participant \<Rightarrow> db \<Rightarrow> db" where
  "restoreParticipant p d =
     d\<lparr>participants := update p_id (p_id p)
          (\<lambda>x. x\<lparr>p_status := Active, p_eliminatedAtRound := None\<rparr>) (participants d)\<rparr>"

definition reset :: "ident \<Rightarrow> db \<Rightarrow> (error + unit) \<times> db" where
  "reset tid d =
     (case getById t_id (tournaments d) tid of
        None \<Rightarrow> (Inl NotFound, d)
      | Some tournament \<Rightarrow>
          if t_status tournament = Finished then (Inl CannotResetCompleted, d)
          else
            let d1 = d\<lparr>matches := deleteWhere (\<lambda>m. m_tournamentId m = tid) (matches d)\<rparr>;
                d2 = d1\<lparr>results := deleteWhere (\<lambda>r. r_tournamentId r = tid) (results d1)\<rparr>;
                d3 = fold restoreParticipant (getByTournament tid d2) d2
            in (Inr (),
                d3\<lparr>tournaments := update t_id tid
                     (\<lambda>t. t\<lparr>t_status := Draft, t_currentRound := 1\<rparr>) (tournaments d3)\<rparr>))"

section \<open>Tournament service\<close>

text \<open>\<^verbatim>\<open>TournamentService.updateStatus\<close>. The status is a string in the source; \<open>None\<close>
  stands for a string that is not one of the four statuses. \<^verbatim>\<open>DB.update\<close> returns the
  updated record, or \<^verbatim>\<open>null\<close> when there is no tournament with the id.\<close>

definition updateStatus ::
  "ident \<Rightarrow> tournament_status option \<Rightarrow> db \<Rightarrow> (error + tournament option) \<times> db" where
  "updateStatus tid status d =
     (case status of
        None \<Rightarrow> (Inl InvalidStatus, d)
      | Some s \<Rightarrow>
          let d1 = d\<lparr>tournaments := update t_id tid (\<lambda>t. t\<lparr>t_status := s\<rparr>) (tournaments d)\<rparr>
          in (Inr (getById t_id (tournaments d1) tid), d1))"

text \<open>\<^verbatim>\<open>TournamentService.canStart\<close>: the reason why the tournament cannot start, if
  any. The participants counted are the records with the tournament id.\<close>

definition canStart :: "ident \<Rightarrow> db \<Rightarrow> error option" where
  "canStart tid d =
     (case getById t_id (tournaments d) tid of
        None \<Rightarrow> Some NotFound
      | Some tournament \<Rightarrow>
          if t_status tournament \<noteq> Registration then Some BracketNotGenerated
          else if int (length (filter (\<lambda>p. p_tournamentId p = tid) (participants d)))
                    < t_participantCount tournament
          then Some IncompleteRoster
          else None)"

text \<open>\<^verbatim>\<open>TournamentService.start\<close>: the check, the seeding of the first round, and the
  status \<open>Ongoing\<close>. The start date that the source writes with the status is a field that the
  tournament record of the model does not carry.\<close>

definition start :: "ident \<Rightarrow> db \<Rightarrow> (error + tournament option) \<times> db" where
  "start tid d =
     (case canStart tid d of
        Some reason \<Rightarrow> (Inl reason, d)
      | None \<Rightarrow>
          (case assignParticipants tid d of
             (Inl e, d1) \<Rightarrow> (Inl e, d1)
           | (Inr _, d1) \<Rightarrow>
               let d2 = d1\<lparr>tournaments := update t_id tid (\<lambda>t. t\<lparr>t_status := Ongoing\<rparr>)
                                          (tournaments d1)\<rparr>
               in (Inr (getById t_id (tournaments d2) tid), d2)))"

section \<open>Example stores\<close>

text \<open>A tournament of four in draft with its roster seeded 1 to 4.\<close>

definition seededParticipant :: "ident \<Rightarrow> int \<Rightarrow> participant" where
  "seededParticipant i s =
     \<lparr>p_id = i, p_tournamentId = 0, p_seed = Some s, p_status = Active,
      p_eliminatedAtRound = None\<rparr>"

definition roster4 :: db where
  "roster4 =
     \<lparr>tournaments =
        [\<lparr>t_id = 0, t_participantCount = 4, t_totalRounds = 2, t_currentRound = 1,
          t_status = Draft, t_endDate = None\<rparr>],
      participants =
        [seededParticipant 1 1, seededParticipant 2 2, seededParticipant 3 3,
         seededParticipant 4 4],
      matches = [],
      results = [],
      nextId = 5\<rparr>"

text \<open>The same tournament with its bracket generated and the first round seeded.\<close>

definition bracket4 :: db where
  "bracket4 =
     \<lparr>tournaments =
        [\<lparr>t_id = 0, t_participantCount = 4, t_totalRounds = 2, t_currentRound = 1,
          t_status = Registration, t_endDate = None\<rparr>],
      participants =
        [seededParticipant 1 1, seededParticipant 2 2, seededParticipant 3 3,
         seededParticipant 4 4],
      matches =
        [\<lparr>m_id = 5, m_tournamentId = 0, m_round = 1, m_matchNumber = 1,
          m_participant1Id = Some 1, m_participant2Id = Some 4, m_winnerId = None,
          m_score1 = None, m_score2 = None, m_status = Upcoming\<rparr>,
         \<lparr>m_id = 6, m_tournamentId = 0, m_round = 1, m_matchNumber = 2,
          m_participant1Id = Some 2, m_participant2Id = Some 3, m_winnerId = None,
          m_score1 = None, m_score2 = None, m_status = Upcoming\<rparr>,
         \<lparr>m_id = 7, m_tournamentId = 0, m_round = 2, m_matchNumber = 3,
          m_participant1Id = None, m_participant2Id = None, m_winnerId = None,
          m_score1 = None, m_score2 = None, m_status = Pending\<rparr>],
      results = [],
      nextId = 8\<rparr>"

text \<open>The same tournament started: the first round seeded and the status ongoing.\<close>

definition started4 :: db where
  "started4 =
     bracket4\<lparr>tournaments :=
       [\<lparr>t_id = 0, t_participantCount = 4, t_totalRounds = 2, t_currentRound = 1,
         t_status = Ongoing, t_endDate = None\<rparr>]\<rparr>"

text \<open>A final marked live by hand while its second slot is still empty.\<close>

definition liveFinal4 :: db where
  "liveFinal4 =
     bracket4\<lparr>matches :=
       [\<lparr>m_id = 7, m_tournamentId = 0, m_round = 2, m_matchNumber = 3,
         m_participant1Id = Some 1, m_participant2Id = None, m_winnerId = None,
         m_score1 = None, m_score2 = None, m_status = Live\<rparr>]\<rparr>"

text \<open>The tournament of four after both first-round matches are scored
  (3 to 1 for seed 1 over seed 4, 0 to 2 for seed 3 over seed 2).\<close>

definition semisScored4 :: db where
  "semisScored4 =
     \<lparr>tournaments =
        [\<lparr>t_id = 0, t_participantCount = 4, t_totalRounds = 2, t_currentRound = 2,
          t_status = Registration, t_endDate = None\<rparr>],
      participants =
        [seededParticipant 1 1,
         (seededParticipant 2 2)\<lparr>p_status := Eliminated, p_eliminatedAtRound := Some 1\<rparr>,
         seededParticipant 3 3,
         (seededParticipant 4 4)\<lparr>p_status := Eliminated, p_eliminatedAtRound := Some 1\<rparr>],
      matches =
        [\<lparr>m_id = 5, m_tournamentId = 0, m_round = 1, m_matchNumber = 1,
          m_participant1Id = Some 1, m_participant2Id = Some 4, m_winnerId = Some 1,
          m_score1 = Some 3, m_score2 = Some 1, m_status = Completed\<rparr>,
         \<lparr>m_id = 6, m_tournamentId = 0, m_round = 1, m_matchNumber = 2,
          m_participant1Id = Some 2, m_participant2Id = Some 3, m_winnerId = Some 3,
          m_score1 = Some 0, m_score2 = Some 2, m_status = Completed\<rparr>,
         \<lparr>m_id = 7, m_tournamentId = 0, m_round = 2, m_matchNumber = 3,
          m_participant1Id = Some 1, m_participant2Id = Some 3, m_winnerId = None,
          m_score1 = None, m_score2 = None, m_status = Upcoming\<rparr>],
      results = [],
      nextId = 8\<rparr>"

section \<open>Notions used in the properties\<close>

text \<open>A round of a list of matches is incomplete when one of its matches is not completed.\<close>

definition incompleteRound :: "match list \<Rightarrow> int \<Rightarrow> bool" where
  "incompleteRound ms r = (\<exists>x\<in>set ms. m_round x = r \<and> m_status x \<noteq> Completed)"

text \<open>A participant record as \<open>reset\<close> leaves it.\<close>

definition restored :: "participant \<Rightarrow> participant" where
  "restored p = p\<lparr>p_status := Active, p_eliminatedAtRound := None\<rparr>"

text \<open>The tournament of four after the final is scored 2 to 1 for seed 1 over seed 3.\<close>

definition finished4 :: db where
  "finished4 =
     \<lparr>tournaments =
        [\<lparr>t_id = 0, t_participantCount = 4, t_totalRounds = 2, t_currentRound = 2,
          t_status = Finished, t_endDate = Some ''2026-01-03''\<rparr>],
      participants =
        [seededParticipant 1 1,
         (seededParticipant 2 2)\<lparr>p_status := Eliminated, p_eliminatedAtRound := Some 1\<rparr>,
         (seededParticipant 3 3)\<lparr>p_status := Eliminated, p_eliminatedAtRound := Some 2\<rparr>,
         (seededParticipant 4 4)\<lparr>p_status := Eliminated, p_eliminatedAtRound := Some 1\<rparr>],
      matches =
        [\<lparr>m_id = 5, m_tournamentId = 0, m_round = 1, m_matchNumber = 1,
          m_participant1Id = Some 1, m_participant2Id = Some 4, m_winnerId = Some 1,
          m_score1 = Some 3, m_score2 = Some 1, m_status = Completed\<rparr>,
         \<lparr>m_id = 6, m_tournamentId = 0, m_round = 1, m_matchNumber = 2,
          m_participant1Id = Some 2, m_participant2Id = Some 3, m_winnerId = Some 3,
          m_score1 = Some 0, m_score2 = Some 2, m_status = Completed\<rparr>,
         \<lparr>m_id = 7, m_tournamentId = 0, m_round = 2, m_matchNumber = 3,
          m_participant1Id = Some 1, m_participant2Id = Some 3, m_winnerId = Some 1,
          m_score1 = Some 2, m_score2 = Some 1, m_status = Completed\<rparr>],
      results =
        [\<lparr>r_id = 8, r_tournamentId = 0, r_championId = 1, r_runnerUpId = 3,
          r_thirdPlaceIds = [4, 2], r_totalMatches = 3, r_totalParticipants = 4\<rparr>],
      nextId = 9\<rparr>"

text \<open>The rounds of the matches that the outer loop of \<open>generate\<close> creates from round
  \<open>r\<close> on, in creation order, and the match records for a list of rounds, numbered and
  given ids from a start.\<close>

definition roundsFrom :: "int \<Rightarrow> int \<Rightarrow> int \<Rightarrow> int list" where
  "roundsFrom participantCount totalRounds r =
     concat (map (\<lambda>j. replicate (nat (participantCount div 2 ^ nat j)) j) [r..totalRounds])"

fun numbered :: "ident \<Rightarrow> ident \<Rightarrow> int \<Rightarrow> int list \<Rightarrow> match list" where
  "numbered tid i n [] = []"
| "numbered tid i n (r # rs) = (newMatch tid r n)\<lparr>m_id := i\<rparr> # numbered tid (Suc i) (n + 1) rs"

text \<open>What one pass of the seeding loop does to a single match record: the pair with index
  \<open>j\<close> goes to the record that carries the id of the \<open>j\<close>-th first-round match.\<close>

definition assignTo :: "match list \<Rightarrow> nat \<times> participant \<times> participant \<Rightarrow> match \<Rightarrow> match" where
  "assignTo firstRoundMatches ip y =
     (if fst ip < length firstRoundMatches \<and> m_id y = m_id (firstRoundMatches ! fst ip)
      then assignPair (snd ip) y else y)"

text \<open>The tournament of four with its bracket generated and nobody assigned yet.\<close>

definition generated4 :: db where
  "generated4 =
     bracket4\<lparr>matches :=
       [(newMatch 0 1 1)\<lparr>m_id := 5\<rparr>, (newMatch 0 1 2)\<lparr>m_id := 6\<rparr>,
        (newMatch 0 2 3)\<lparr>m_id := 7\<rparr>]\<rparr>"

text \<open>
  The shape of a bracket: the tournament has \<open>2 ^ k\<close> participants and \<open>k\<close> rounds, every
  match of it lies in a round \<open>r\<close> of \<open>1 .. k\<close> with its number among the
  \<open>participantCount div 2 ^ r\<close> numbers that start at the first number of the round, and
  every round has that many matches. Only the tournament id, the round and the number of a
  match count, so the shape is stated on these keys.
\<close>

definition matchKeys :: "db \<Rightarrow> (ident \<times> int \<times> int) list" where
  "matchKeys d = map (\<lambda>m. (m_tournamentId m, m_round m, m_matchNumber m)) (matches d)"

definition bracketShape :: "ident \<Rightarrow> db \<Rightarrow> bool" where
  "bracketShape tid d =
     (\<exists>t k. getById t_id (tournaments d) tid = Some t \<and>
        t_participantCount t = 2 ^ k \<and> t_totalRounds t = int k \<and>
        (\<forall>(ti, r, n)\<in>set (matchKeys d). ti = tid \<longrightarrow>
           1 \<le> r \<and> r \<le> int k \<and>
           firstMatchNumberLoop (2 ^ k) r 1 1 \<le> n \<and>
           n < firstMatchNumberLoop (2 ^ k) r 1 1 + 2 ^ k div 2 ^ nat r) \<and>
        (\<forall>r. 1 \<le> r \<and> r \<le> int k \<longrightarrow>
           int (length (filter (\<lambda>(ti, r', n). ti = tid \<and> r' = r) (matchKeys d))) =
             2 ^ k div 2 ^ nat r))"


text \<open>Two stores have the same keys when their matches agree on tournament id, round and
  number, in order, and their tournaments agree on id, participant count and round count.\<close>

definition tournamentKey :: "tournament \<Rightarrow> ident \<times> int \<times> int" where
  "tournamentKey t = (t_id t, t_participantCount t, t_totalRounds t)"

definition sameKeys :: "db \<Rightarrow> db \<Rightarrow> bool" where
  "sameKeys d d' =
     (matchKeys d' = matchKeys d \<and>
      map tournamentKey (tournaments d') = map tournamentKey (tournaments d))"

text \<open>A completed match of the tournament has both participants.\<close>

definition slotsFilled :: "match \<Rightarrow> bool" where
  "slotsFilled m = (m_participant1Id m \<noteq> None \<and> m_participant2Id m \<noteq> None)"

definition completedFilled :: "ident \<Rightarrow> match list \<Rightarrow> bool" where
  "completedFilled tid ms =
     (\<forall>m\<in>set ms. m_tournamentId m = tid \<and> m_status m = Completed \<longrightarrow> slotsFilled m)"

text \<open>A step keeps the matches when it keeps their ids, in order, and keeps completed matches
  of the tournament filled.\<close>

definition kept :: "ident \<Rightarrow> db \<Rightarrow> db \<Rightarrow> bool" where
  "kept tid d d' =
     (map m_id (matches d') = map m_id (matches d) \<and>
      (completedFilled tid (matches d) \<longrightarrow> completedFilled tid (matches d')))"

text \<open>
  The stores that hold a bracket built by \<open>generate\<close>: the store right after a successful
  \<open>generate\<close> on a tournament of \<open>2 ^ k\<close> participants that had no matches, in a store
  whose match ids are distinct and were drawn from the id counter; every store that
  \<open>assignParticipants\<close> and \<open>updateScore\<close> calls lead to from there; and every store that
  any other write leads to which keeps the keys and the ids of the matches and the keys of the
  tournaments and leaves the completed matches of the tournament with both participants: a
  change of status, \<open>start\<close>, a write to the participants or the results.
\<close>

inductive built :: "ident \<Rightarrow> db \<Rightarrow> bool" for tid :: ident where
  generated:
    "getById t_id (tournaments d0) tid = Some t \<Longrightarrow> t_participantCount t = 2 ^ k \<Longrightarrow>
     filter (\<lambda>m. m_tournamentId m = tid) (matches d0) = [] \<Longrightarrow>
     generate tid d0 = (Inr ms, d) \<Longrightarrow>
     distinct (map m_id (matches d0)) \<Longrightarrow> \<forall>m\<in>set (matches d0). m_id m < nextId d0 \<Longrightarrow>
     built tid d"
| assigned:
    "built tid d \<Longrightarrow> assignParticipants tid' d = (r, d') \<Longrightarrow> built tid d'"
| scored:
    "built tid d \<Longrightarrow> updateScore today matchId score1 score2 d = (r', d') \<Longrightarrow> built tid d'"
| rewritten:
    "built tid d \<Longrightarrow> sameKeys d d' \<Longrightarrow> kept tid d d' \<Longrightarrow> built tid d'"

text \<open>The lowest round of \<open>1 .. totalRounds\<close> that is incomplete.\<close>

definition lowestIncomplete :: "match list \<Rightarrow> int \<Rightarrow> int \<Rightarrow> bool" where
  "lowestIncomplete ms totalRounds c =
     (1 \<le> c \<and> c \<le> totalRounds \<and> incompleteRound ms c \<and>
      list_all (\<lambda>j. \<not> incompleteRound ms j) [1..c - 1])"

section \<open>Play without scoring a match twice\<close>

text \<open>The participants in the slots of a match, the ids of the eliminated participants of
  a store, and the matches of a tournament that are not completed.\<close>

definition slotIds :: "match \<Rightarrow> ident set" where
  "slotIds m = set_option (m_participant1Id m) \<union> set_option (m_participant2Id m)"

definition eliminatedIds :: "db \<Rightarrow> ident set" where
  "eliminatedIds d = p_id ` {p \<in> set (participants d). p_status p = Eliminated}"


text \<open>The slot that \<open>advanceWinner\<close> fills for a match: the id of the destination match and
  whether the winner becomes its participant 1. There is none for a match of the final round
  or when the destination is missing.\<close>

definition slotOf :: "bool \<Rightarrow> match \<Rightarrow> ident option" where
  "slotOf first m = (if first then m_participant1Id m else m_participant2Id m)"









text \<open>
  The stores reached by fair play: a tournament of \<open>2 ^ k\<close> participants without matches and
  results, whose roster has nobody eliminated, in a store with distinct ids, gets its bracket
  generated and seeded; from then on only matches of the tournament that are not completed
  are reported, with any scores and any outcome of the call, and the tournaments are written
  in any way that keeps their ids, participant counts and round counts (a change of status,
  the last write of \<open>start\<close>).
\<close>

inductive played :: "ident \<Rightarrow> db \<Rightarrow> bool" for tid :: ident where
  seeded:
    "getById t_id (tournaments d0) tid = Some t \<Longrightarrow> t_participantCount t = 2 ^ k \<Longrightarrow>
     filter (\<lambda>m. m_tournamentId m = tid) (matches d0) = [] \<Longrightarrow>
     generate tid d0 = (Inr ms, d1) \<Longrightarrow>
     distinct (map m_id (matches d0)) \<Longrightarrow> \<forall>m\<in>set (matches d0). m_id m < nextId d0 \<Longrightarrow>
     filter (\<lambda>r. r_tournamentId r = tid) (results d0) = [] \<Longrightarrow>
     distinct (map p_id (participants d0)) \<Longrightarrow>
     \<forall>p\<in>set (participants d0). p_tournamentId p = tid \<longrightarrow> p_status p \<noteq> Eliminated \<Longrightarrow>
     assignParticipants tid d1 = (Inr fr, d) \<Longrightarrow> played tid d"
| reported:
    "played tid d \<Longrightarrow> getById m_id (matches d) matchId = Some m \<Longrightarrow> m_tournamentId m = tid \<Longrightarrow>
     m_status m \<noteq> Completed \<Longrightarrow> updateScore today matchId score1 score2 d = (r, d') \<Longrightarrow>
     played tid d'"
| restated:
    "played tid d \<Longrightarrow> matches d' = matches d \<Longrightarrow> participants d' = participants d \<Longrightarrow>
     results d' = results d \<Longrightarrow>
     map tournamentKey (tournaments d') = map tournamentKey (tournaments d) \<Longrightarrow> played tid d'"

section \<open>Properties\<close>

subsection \<open>The record store\<close>

lemma getById_update_same:
  "getById idf xs i = Some x \<Longrightarrow> idf (f x) = i \<Longrightarrow> getById idf (update idf i f xs) i = Some (f x)"
  by (induction xs) (auto simp: getById_def split: if_splits)

lemma getById_update_other:
  "j \<noteq> i \<Longrightarrow> (\<And>x. idf (f x) = idf x) \<Longrightarrow> getById idf (update idf i f xs) j = getById idf xs j"
  by (induction xs) (auto simp: getById_def)

lemma getById_Some_id: "getById idf xs i = Some x \<Longrightarrow> idf x = i"
  by (induction xs) (auto simp: getById_def split: if_splits)

lemma getById_Some_mem: "getById idf xs i = Some x \<Longrightarrow> x \<in> set xs"
  by (induction xs) (auto simp: getById_def split: if_splits)

lemma getById_None_update: "getById idf xs i = None \<Longrightarrow> update idf i f xs = xs"
  by (induction xs) (auto simp: getById_def split: if_splits)

lemma length_update [simp]: "length (update idf i f xs) = length xs"
  by (induction xs) auto

lemma map_update_preserved:
  "(\<And>x. g (f x) = g x) \<Longrightarrow> map g (update idf i f xs) = map g xs"
  by (induction xs) auto

lemma filter_update_outside:
  "getById idf xs i = Some x \<Longrightarrow> \<not> P x \<Longrightarrow> \<not> P (f x) \<Longrightarrow>
   filter P (update idf i f xs) = filter P xs"
  by (induction xs) (auto simp: getById_def split: if_splits)

lemma length_filter_update:
  "(\<And>x. P (f x) = P x) \<Longrightarrow> length (filter P (update idf i f xs)) = length (filter P xs)"
  by (induction xs) auto

lemma updateScore_final_eq:
  assumes m: "getById m_id (matches d) matchId = Some m"
    and t: "getById t_id (tournaments d) (m_tournamentId m) = Some t"
    and final: "m_round m = t_totalRounds t"
    and ready: "m_status m \<noteq> Pending"
    and slots: "m_participant1Id m = Some a" "m_participant2Id m = Some b"
    and scores: "0 \<le> score1" "0 \<le> score2" "score1 \<noteq> score2"
    and w: "w = (if score1 > score2 then a else b)"
    and l: "l = (if score1 > score2 then b else a)"
    and ms: "ms = filter (\<lambda>x. m_tournamentId x = m_tournamentId m)
                (update m_id matchId (scoreUpdate score1 score2 w) (matches d))"
  shows "updateScore today matchId score1 score2 d =
     (Inr (Some (scoreUpdate score1 score2 w m)),
      d\<lparr>matches := update m_id matchId (scoreUpdate score1 score2 w) (matches d),
        participants := update p_id l
          (\<lambda>p. p\<lparr>p_status := Eliminated, p_eliminatedAtRound := Some (m_round m)\<rparr>)
          (participants d),
        results := results d @
          [\<lparr>r_id = nextId d, r_tournamentId = m_tournamentId m, r_championId = w,
            r_runnerUpId = l, r_thirdPlaceIds = thirdPlaceIdsOf t ms,
            r_totalMatches = int (length ms),
            r_totalParticipants = t_participantCount t\<rparr>],
        nextId := Suc (nextId d),
        tournaments := update t_id (m_tournamentId m)
          (\<lambda>x. x\<lparr>t_status := Finished, t_currentRound := t_totalRounds t,
                  t_endDate := Some today\<rparr>) (tournaments d)\<rparr>)"
proof -
  have id: "m_id m = matchId" using m by (rule getById_Some_id)
  have g: "getById m_id (update m_id matchId (scoreUpdate score1 score2 w) (matches d)) matchId
      = Some (scoreUpdate score1 score2 w m)"
    using m id by (intro getById_update_same) (simp_all add: scoreUpdate_def)
  show ?thesis
    using m t final ready slots scores g
    by (simp add: updateScore_def advanceWinner_def finalizeTournament_def eliminate_def
        insert_result_def Let_def w l ms)
qed

subsection \<open>Rejected score reports\<close>

text \<open>
  C4. The checks of \<open>updateScore\<close> run in the order of the specification, each before any
  write: a pending match fails with \<open>MatchNotReady\<close>; a match that is not pending with an
  empty participant slot fails with \<open>IncompleteMatch\<close>; with both slots filled a negative
  score fails with \<open>InvalidScore\<close>; and with scores that are not negative, equal scores
  fail with \<open>DrawNotAllowed\<close>. In each case the store that comes back is the store that
  went in, so no match, participant, tournament or result record is modified.
\<close>

theorem updateScore_rejects:
  assumes "getById m_id (matches d) matchId = Some m"
  shows "(m_status m = Pending \<longrightarrow>
            updateScore today matchId score1 score2 d = (Inl MatchNotReady, d)) \<and>
         (m_status m \<noteq> Pending \<and> (m_participant1Id m = None \<or> m_participant2Id m = None) \<longrightarrow>
            updateScore today matchId score1 score2 d = (Inl IncompleteMatch, d)) \<and>
         (m_status m \<noteq> Pending \<and> m_participant1Id m \<noteq> None \<and> m_participant2Id m \<noteq> None \<and>
          (score1 < 0 \<or> score2 < 0) \<longrightarrow>
            updateScore today matchId score1 score2 d = (Inl InvalidScore, d)) \<and>
         (m_status m \<noteq> Pending \<and> m_participant1Id m \<noteq> None \<and> m_participant2Id m \<noteq> None \<and>
          0 \<le> score1 \<and> 0 \<le> score2 \<and> score1 = score2 \<longrightarrow>
            updateScore today matchId score1 score2 d = (Inl DrawNotAllowed, d))"
  using assms by (auto simp: updateScore_def split: option.splits)

theorem updateScore_rejects_witness:
  "updateScore ''2026-01-01'' 7 2 1 bracket4 = (Inl MatchNotReady, bracket4) \<and>
   updateScore ''2026-01-01'' 7 2 1 liveFinal4 = (Inl IncompleteMatch, liveFinal4) \<and>
   updateScore ''2026-01-01'' 5 (- 1) 1 bracket4 = (Inl InvalidScore, bracket4) \<and>
   updateScore ''2026-01-01'' 5 1 1 bracket4 = (Inl DrawNotAllowed, bracket4)"
proof -
  have a: "getById m_id (matches bracket4) 7 = Some (matches bracket4 ! 2)"
    by (simp add: bracket4_def getById_def)
  have b: "getById m_id (matches liveFinal4) 7 = Some (matches liveFinal4 ! 0)"
    by (simp add: liveFinal4_def getById_def)
  have c: "getById m_id (matches bracket4) 5 = Some (matches bracket4 ! 0)"
    by (simp add: bracket4_def getById_def)
  have "updateScore ''2026-01-01'' 7 2 1 bracket4 = (Inl MatchNotReady, bracket4)"
    using updateScore_rejects [OF a, of "''2026-01-01''" 2 1] by (simp add: bracket4_def)
  moreover have "updateScore ''2026-01-01'' 7 2 1 liveFinal4 = (Inl IncompleteMatch, liveFinal4)"
    using updateScore_rejects [OF b, of "''2026-01-01''" 2 1] by (simp add: liveFinal4_def)
  moreover have "updateScore ''2026-01-01'' 5 (- 1) 1 bracket4 = (Inl InvalidScore, bracket4)"
    using updateScore_rejects [OF c, of "''2026-01-01''" "- 1" 1] by (simp add: bracket4_def)
  moreover have "updateScore ''2026-01-01'' 5 1 1 bracket4 = (Inl DrawNotAllowed, bracket4)"
    using updateScore_rejects [OF c, of "''2026-01-01''" 1 1] by (simp add: bracket4_def)
  ultimately show ?thesis by simp
qed

subsection \<open>Sorting, first match numbers, advancement\<close>

lemma insort_cmp_key:
  "insort_cmp (\<lambda>a b. key a - key b) x xs = insort_key key x (xs :: 'a list)"
  for key :: "'a \<Rightarrow> int"
  by (induction xs) auto

lemma sort_cmp_key: "sort_cmp (\<lambda>a b. key a - key b) xs = sort_key key xs"
  for key :: "'a \<Rightarrow> int"
  by (induction xs) (simp_all add: sort_cmp_def sort_key_def insort_cmp_key)

lemma sort_cmp_byMatchNumber: "sort_cmp byMatchNumber xs = sort_key m_matchNumber xs"
  using sort_cmp_key [of m_matchNumber xs] by (simp add: byMatchNumber_def [abs_def])

lemma int_interval_lower: "r \<le> n \<Longrightarrow> {r..n} = insert r {r + 1..n}" for r n :: int
  by auto

lemma firstMatchNumberLoop_sum:
  "firstMatchNumberLoop pc round r acc = acc + (\<Sum>k = r..round - 1. pc div 2 ^ nat k)"
proof (induction pc round r acc rule: firstMatchNumberLoop.induct)
  case (1 pc round r acc)
  show ?case
  proof (cases "r < round")
    case True
    then have "{r..round - 1} = insert r {r + 1..round - 1}"
      by (intro int_interval_lower) simp
    then have "(\<Sum>k = r..round - 1. pc div 2 ^ nat k) =
               pc div 2 ^ nat r + (\<Sum>k = r + 1..round - 1. pc div 2 ^ nat k)"
      by simp
    with True "1.IH" show ?thesis
      by (subst firstMatchNumberLoop.simps) simp
  next
    case False
    then show ?thesis by (subst firstMatchNumberLoop.simps) simp
  qed
qed

text \<open>For a participant count \<open>2 ^ k\<close> every quotient that the loop adds for a round up to
  \<open>k + 1\<close> leaves no remainder: there the integer quotient of the model is the quotient of
  the source.\<close>

lemma quotient_exact:
  assumes "1 \<le> r" "r < round" "round \<le> int k + 1"
  shows "(2::int) ^ nat r dvd 2 ^ k \<and> (2::int) ^ k div 2 ^ nat r * 2 ^ nat r = 2 ^ k"
proof -
  from assms have "nat r \<le> k" by simp
  then have "(2::int) ^ nat r dvd 2 ^ k" by (rule le_imp_power_dvd)
  then show ?thesis by simp
qed

lemma nextMatchesOf_update:
  assumes "getById m_id (matches d) i = Some m" "m_round m \<noteq> r"
    "\<And>x. m_round (f x) = m_round x"
  shows "nextMatchesOf tid r (d\<lparr>matches := update m_id i f (matches d), participants := ps\<rparr>) =
         nextMatchesOf tid r d"
  using assms by (simp add: nextMatchesOf_def filter_update_outside)

lemma advanceWinner_eq:
  assumes t: "getById t_id (tournaments d) (m_tournamentId m) = Some t"
    and r: "m_round m < t_totalRounds t"
    and idx: "idx = m_matchNumber m - firstMatchNumberLoop (t_participantCount t) (m_round m) 1 1"
  shows "advanceWinner m w d =
     (Inr (),
      case at_index (nextMatchesOf (m_tournamentId m) (m_round m + 1) d) (idx div 2) of
        None \<Rightarrow> d
      | Some nm \<Rightarrow>
          d\<lparr>matches := update m_id (m_id nm)
              (advanceUpdates idx w (getById m_id (matches d) (m_id nm))) (matches d)\<rparr>)"
  using t r by (simp add: advanceWinner_def getFirstMatchNumberOfRound_def idx Let_def
      split: option.splits)

lemma currentRoundLoop_fields:
  "matches (currentRoundLoop t ms r d) = matches d \<and>
   participants (currentRoundLoop t ms r d) = participants d \<and>
   results (currentRoundLoop t ms r d) = results d \<and>
   nextId (currentRoundLoop t ms r d) = nextId d"
proof (induction t ms r d rule: currentRoundLoop.induct)
  case (1 t ms r d)
  then show ?case
    by (subst (1 2 3 4) currentRoundLoop.simps) (simp add: Let_def)
qed

lemma updateScore_nonfinal_eq:
  assumes m: "getById m_id (matches d) matchId = Some m"
    and t: "getById t_id (tournaments d) (m_tournamentId m) = Some t"
    and nonfinal: "m_round m < t_totalRounds t"
    and ready: "m_status m \<noteq> Pending"
    and slots: "m_participant1Id m = Some a" "m_participant2Id m = Some b"
    and scores: "0 \<le> score1" "0 \<le> score2" "score1 \<noteq> score2"
    and w: "w = (if score1 > score2 then a else b)"
    and l: "l = (if score1 > score2 then b else a)"
    and d2: "d2 = d\<lparr>matches := update m_id matchId (scoreUpdate score1 score2 w) (matches d),
                    participants := update p_id l
                       (\<lambda>p. p\<lparr>p_status := Eliminated, p_eliminatedAtRound := Some (m_round m)\<rparr>)
                       (participants d)\<rparr>"
    and d3: "d3 = snd (advanceWinner m w d2)"
    and d4: "d4 = currentRoundLoop t (filter (\<lambda>x. m_tournamentId x = m_tournamentId m) (matches d3)) 1 d3"
  shows "updateScore today matchId score1 score2 d = (Inr (getById m_id (matches d4) matchId), d4)"
proof -
  have t2: "getById t_id (tournaments d2) (m_tournamentId m) = Some t"
    using t by (simp add: d2)
  have a: "advanceWinner m w d2 = (Inr (), d3)"
    using advanceWinner_eq [OF t2 nonfinal refl, of w] by (simp add: d3)
  have t3: "tournaments d3 = tournaments d"
    using advanceWinner_eq [OF t2 nonfinal refl, of w]
    by (simp add: d3 d2 split: option.splits)
  have e: "eliminate l (m_round m)
              (d\<lparr>matches := update m_id matchId (scoreUpdate score1 score2 w) (matches d)\<rparr>) = d2"
    by (simp add: eliminate_def d2)
  have t1: "getById t_id (tournaments
              (d\<lparr>matches := update m_id matchId (scoreUpdate score1 score2 w) (matches d)\<rparr>))
              (m_tournamentId m) = Some t"
    using t by simp
  have u: "updateCurrentRound (m_tournamentId m) d3 = (Inr (), d4)"
    using t t3 by (simp add: updateCurrentRound_def d4)
  have ne: "m_round m \<noteq> t_totalRounds t" using nonfinal by simp
  show ?thesis
    unfolding updateScore_def
    using ready scores ne
    by (simp add: m slots Let_def w [symmetric] l [symmetric] e t t1 a u del: One_nat_def
        split del: if_split)
qed

lemma updateScore_ok_pre:
  assumes "getById m_id (matches d) matchId = Some m"
    and "updateScore today matchId score1 score2 d = (Inr r, d')"
  shows "m_status m \<noteq> Pending \<and> (\<exists>a b. m_participant1Id m = Some a \<and> m_participant2Id m = Some b) \<and>
         0 \<le> score1 \<and> 0 \<le> score2 \<and> score1 \<noteq> score2"
proof -
  have "m_status m = Pending \<Longrightarrow> updateScore today matchId score1 score2 d = (Inl MatchNotReady, d)"
    using assms(1) by (simp add: updateScore_def)
  moreover have "m_status m \<noteq> Pending \<Longrightarrow> m_participant1Id m = None \<or> m_participant2Id m = None \<Longrightarrow>
      updateScore today matchId score1 score2 d = (Inl IncompleteMatch, d)"
    using assms(1) by (auto simp: updateScore_def split: option.splits)
  moreover have "m_status m \<noteq> Pending \<Longrightarrow> m_participant1Id m = Some a \<Longrightarrow> m_participant2Id m = Some b \<Longrightarrow>
      score1 < 0 \<or> score2 < 0 \<or> score1 = score2 \<Longrightarrow>
      isl (fst (updateScore today matchId score1 score2 d))" for a b
    using assms(1) by (auto simp: updateScore_def)
  ultimately show ?thesis
    using assms(2) by (cases "m_participant1Id m"; cases "m_participant2Id m") fastforce+
qed

lemma getById_distinct:
  "distinct (map idf xs) \<Longrightarrow> x \<in> set xs \<Longrightarrow> getById idf xs (idf x) = Some x"
  by (induction xs) (auto simp: getById_def)

lemma at_index_mem: "at_index xs i = Some x \<Longrightarrow> x \<in> set xs"
  by (auto simp: at_index_def split: if_splits)

lemma nextMatchesOf_mem:
  "x \<in> set (nextMatchesOf tid r d) \<longleftrightarrow> x \<in> set (matches d) \<and> m_tournamentId x = tid \<and> m_round x = r"
  by (auto simp: nextMatchesOf_def sort_cmp_byMatchNumber)

lemma advanceUpdates_keys:
  "m_id (advanceUpdates i w c x) = m_id x \<and> m_round (advanceUpdates i w c x) = m_round x \<and>
   m_tournamentId (advanceUpdates i w c x) = m_tournamentId x \<and>
   m_matchNumber (advanceUpdates i w c x) = m_matchNumber x"
  by (simp add: advanceUpdates_def slotUpdate_def Let_def)

lemma scoreUpdate_keys:
  "m_id (scoreUpdate s1 s2 w x) = m_id x \<and> m_round (scoreUpdate s1 s2 w x) = m_round x \<and>
   m_tournamentId (scoreUpdate s1 s2 w x) = m_tournamentId x \<and>
   m_matchNumber (scoreUpdate s1 s2 w x) = m_matchNumber x"
  by (simp add: scoreUpdate_def)

text \<open>The matches after a successful report on a match below the final round.\<close>

lemma updateScore_nonfinal_matches:
  assumes m: "getById m_id (matches d) matchId = Some m"
    and t: "getById t_id (tournaments d) (m_tournamentId m) = Some t"
    and nonfinal: "m_round m < t_totalRounds t"
    and ok: "updateScore today matchId score1 score2 d = (Inr r, d')"
    and slots: "m_participant1Id m = Some a" "m_participant2Id m = Some b"
    and w: "w = (if score1 > score2 then a else b)"
    and idx: "idx = m_matchNumber m - firstMatchNumberLoop (t_participantCount t) (m_round m) 1 1"
    and ms1: "ms1 = update m_id matchId (scoreUpdate score1 score2 w) (matches d)"
  shows "matches d' =
     (case at_index (nextMatchesOf (m_tournamentId m) (m_round m + 1) d) (idx div 2) of
        None \<Rightarrow> ms1
      | Some nm \<Rightarrow> update m_id (m_id nm) (advanceUpdates idx w (getById m_id ms1 (m_id nm))) ms1)"
proof -
  define l where "l = (if score1 > score2 then b else a)"
  define d2 where "d2 = d\<lparr>matches := ms1,
                    participants := update p_id l
                       (\<lambda>p. p\<lparr>p_status := Eliminated, p_eliminatedAtRound := Some (m_round m)\<rparr>)
                       (participants d)\<rparr>"
  define d3 where "d3 = snd (advanceWinner m w d2)"
  define d4 where "d4 = currentRoundLoop t (filter (\<lambda>x. m_tournamentId x = m_tournamentId m) (matches d3)) 1 d3"
  from updateScore_ok_pre [OF m ok]
  have pre: "m_status m \<noteq> Pending" "0 \<le> score1" "0 \<le> score2" "score1 \<noteq> score2" by auto
  have "updateScore today matchId score1 score2 d = (Inr (getById m_id (matches d4) matchId), d4)"
    using updateScore_nonfinal_eq [OF m t nonfinal pre(1) slots pre(2-4) w l_def _ d3_def d4_def]
    by (simp add: d2_def ms1)
  with ok have d': "d' = d4" by simp
  have t2: "getById t_id (tournaments d2) (m_tournamentId m) = Some t"
    using t by (simp add: d2_def)
  have nm: "nextMatchesOf (m_tournamentId m) (m_round m + 1) d2 =
            nextMatchesOf (m_tournamentId m) (m_round m + 1) d"
    unfolding d2_def ms1
    by (rule nextMatchesOf_update [OF m]) (simp_all add: scoreUpdate_keys)
  have "matches d4 = matches d3" by (simp add: d4_def currentRoundLoop_fields)
  also have "\<dots> = (case at_index (nextMatchesOf (m_tournamentId m) (m_round m + 1) d) (idx div 2) of
        None \<Rightarrow> ms1
      | Some nm \<Rightarrow> update m_id (m_id nm) (advanceUpdates idx w (getById m_id ms1 (m_id nm))) ms1)"
    unfolding d3_def advanceWinner_eq [OF t2 nonfinal idx] nm
    by (simp add: d2_def split: option.splits)
  finally show ?thesis by (simp add: d')
qed

lemma getById_update_distinct_other:
  "distinct (map idf xs) \<Longrightarrow> x \<in> set xs \<Longrightarrow> idf x \<noteq> i \<Longrightarrow>
   (\<And>y. idf (f y) = idf y) \<Longrightarrow> getById idf (update idf i f xs) (idf x) = Some x"
  by (simp add: getById_update_other getById_distinct)

lemma advanceUpdates_even:
  "even i \<Longrightarrow> advanceUpdates i w (Some c) c =
     (if m_participant2Id c \<noteq> None
      then c\<lparr>m_participant1Id := Some w, m_status := Upcoming\<rparr>
      else c\<lparr>m_participant1Id := Some w\<rparr>)"
  by (simp add: advanceUpdates_def slotUpdate_def Let_def even_iff_mod_2_eq_zero)

lemma advanceUpdates_odd:
  "odd i \<Longrightarrow> advanceUpdates i w (Some c) c =
     (if m_participant1Id c \<noteq> None
      then c\<lparr>m_participant2Id := Some w, m_status := Upcoming\<rparr>
      else c\<lparr>m_participant2Id := Some w\<rparr>)"
  by (simp add: advanceUpdates_def slotUpdate_def Let_def even_iff_mod_2_eq_zero)

subsection \<open>Where the winner goes\<close>

text \<open>
  C1. A successful \<open>updateScore\<close> on a match of round \<open>r\<close> below the final round, in a
  tournament whose participant count is \<open>2 ^ totalRounds\<close> and a store whose match ids are
  distinct: with \<open>firstNumberOfRound = 1 + (\<Sum>k = 1..r - 1. participantCount div 2 ^ k)\<close>
  and \<open>indexInRound = matchNumber - firstNumberOfRound\<close>, the match at index
  \<open>indexInRound div 2\<close> among the matches of round \<open>r + 1\<close> ordered by match number gets
  the winner as participant 1 when \<open>indexInRound\<close> is even and as participant 2 when it is
  odd, its other slot and its scores are left alone, and its status is \<open>Upcoming\<close> when both
  slots are then filled and stays what it was otherwise. No match other than the scored one
  and the destination changes.
\<close>

theorem advanceWinner_destination:
  assumes m: "getById m_id (matches d) matchId = Some m"
    and t: "getById t_id (tournaments d) (m_tournamentId m) = Some t"
    and pow: "t_participantCount t = 2 ^ nat (t_totalRounds t)"
    and nonfinal: "m_round m < t_totalRounds t"
    and ids: "distinct (map m_id (matches d))"
    and ok: "updateScore today matchId score1 score2 d = (Inr r, d')"
    and slots: "m_participant1Id m = Some a" "m_participant2Id m = Some b"
    and w: "winner = (if score1 > score2 then a else b)"
    and first: "firstNumberOfRound =
                  1 + (\<Sum>k = 1..m_round m - 1. t_participantCount t div 2 ^ nat k)"
    and idx: "indexInRound = m_matchNumber m - firstNumberOfRound"
    and dest: "at_index
                 (sort_key m_matchNumber
                    (filter (\<lambda>x. m_tournamentId x = m_tournamentId m \<and> m_round x = m_round m + 1)
                       (matches d)))
                 (indexInRound div 2) = Some dm"
  shows "(\<exists>dm'. getById m_id (matches d') (m_id dm) = Some dm' \<and>
           (even indexInRound \<longrightarrow>
              m_participant1Id dm' = Some winner \<and> m_participant2Id dm' = m_participant2Id dm) \<and>
           (odd indexInRound \<longrightarrow>
              m_participant2Id dm' = Some winner \<and> m_participant1Id dm' = m_participant1Id dm) \<and>
           m_status dm' =
             (if m_participant1Id dm' \<noteq> None \<and> m_participant2Id dm' \<noteq> None then Upcoming
              else m_status dm) \<and>
           m_round dm' = m_round m + 1 \<and> m_matchNumber dm' = m_matchNumber dm \<and>
           m_tournamentId dm' = m_tournamentId m \<and>
           m_winnerId dm' = m_winnerId dm \<and> m_score1 dm' = m_score1 dm \<and>
           m_score2 dm' = m_score2 dm) \<and>
         (\<forall>x\<in>set (matches d). m_id x \<noteq> matchId \<and> m_id x \<noteq> m_id dm \<longrightarrow>
           getById m_id (matches d') (m_id x) = Some x)" (is "(\<exists>dm'. ?P dm') \<and> ?others")
proof -
  define ms1 where "ms1 = update m_id matchId (scoreUpdate score1 score2 winner) (matches d)"
  have idx': "indexInRound =
      m_matchNumber m - firstMatchNumberLoop (t_participantCount t) (m_round m) 1 1"
    by (simp add: idx first firstMatchNumberLoop_sum)
  have dest': "at_index (nextMatchesOf (m_tournamentId m) (m_round m + 1) d) (indexInRound div 2)
      = Some dm"
    using dest by (simp add: nextMatchesOf_def sort_cmp_byMatchNumber)
  have dm: "dm \<in> set (matches d)" "m_tournamentId dm = m_tournamentId m" "m_round dm = m_round m + 1"
    using at_index_mem [OF dest'] by (simp_all add: nextMatchesOf_mem)
  have mid: "m_id m = matchId" using m by (rule getById_Some_id)
  have mm: "m \<in> set (matches d)" using m by (rule getById_Some_mem)
  have ne: "m_id dm \<noteq> matchId"
  proof
    assume "m_id dm = matchId"
    then have "getById m_id (matches d) matchId = Some dm"
      using getById_distinct [OF ids dm(1)] by simp
    with m dm(3) show False by simp
  qed
  have g1: "getById m_id ms1 (m_id dm) = Some dm"
    unfolding ms1_def using ids dm(1) ne
    by (rule getById_update_distinct_other) (simp add: scoreUpdate_keys)
  have ms': "matches d' = update m_id (m_id dm) (advanceUpdates indexInRound winner (Some dm)) ms1"
    using updateScore_nonfinal_matches [OF m t nonfinal ok slots w idx' ms1_def] dest' g1
    by simp
  have g2: "getById m_id (matches d') (m_id dm) = Some (advanceUpdates indexInRound winner (Some dm) dm)"
    unfolding ms' using g1 by (rule getById_update_same) (simp add: advanceUpdates_keys)
  define dm' where "dm' = advanceUpdates indexInRound winner (Some dm) dm"
  have f: "(even indexInRound \<longrightarrow>
              m_participant1Id dm' = Some winner \<and> m_participant2Id dm' = m_participant2Id dm) \<and>
           (odd indexInRound \<longrightarrow>
              m_participant2Id dm' = Some winner \<and> m_participant1Id dm' = m_participant1Id dm) \<and>
           m_status dm' =
             (if m_participant1Id dm' \<noteq> None \<and> m_participant2Id dm' \<noteq> None then Upcoming
              else m_status dm) \<and>
           m_round dm' = m_round m + 1 \<and> m_matchNumber dm' = m_matchNumber dm \<and>
           m_tournamentId dm' = m_tournamentId m \<and>
           m_winnerId dm' = m_winnerId dm \<and> m_score1 dm' = m_score1 dm \<and>
           m_score2 dm' = m_score2 dm"
    unfolding dm'_def
    by (cases "even indexInRound") (simp_all add: advanceUpdates_even advanceUpdates_odd dm(2,3))
  have "getById m_id (matches d') (m_id dm) = Some dm'"
    using g2 by (simp only: dm'_def)
  from this f have "?P dm'" by (rule conjI)
  then have 1: "\<exists>dm'. ?P dm'" ..
  have 2: ?others
  proof (intro ballI impI)
    fix x assume x: "x \<in> set (matches d)" "m_id x \<noteq> matchId \<and> m_id x \<noteq> m_id dm"
    have "m_id x \<noteq> matchId" using x by simp
    with ids x(1) have "getById m_id ms1 (m_id x) = Some x"
      unfolding ms1_def
      by (rule getById_update_distinct_other) (simp add: scoreUpdate_keys)
    then show "getById m_id (matches d') (m_id x) = Some x"
      unfolding ms' using x by (simp add: getById_update_other advanceUpdates_keys)
  qed
  from 1 2 show ?thesis by (rule conjI)
qed

lemma outcome_Inr: "\<not> isl (fst x) \<Longrightarrow> x = (Inr (projr (fst x)), snd x)"
  by (cases x; cases "fst x") auto

theorem advanceWinner_destination_witness:
  "\<exists>dm'. getById m_id (matches (snd (updateScore ''2026-01-01'' 5 3 1 bracket4))) 7 = Some dm' \<and>
     m_participant1Id dm' = Some 1 \<and> m_participant2Id dm' = None \<and> m_status dm' = Pending"
proof -
  let ?m = "matches bracket4 ! 0" and ?t = "tournaments bracket4 ! 0"
    and ?dm = "matches bracket4 ! 2"
  let ?out = "updateScore ''2026-01-01'' 5 3 1 bracket4"
  have m: "getById m_id (matches bracket4) 5 = Some ?m"
    by (simp add: bracket4_def getById_def)
  have t: "getById t_id (tournaments bracket4) (m_tournamentId ?m) = Some ?t"
    by (simp add: bracket4_def getById_def)
  have pow: "t_participantCount ?t = 2 ^ nat (t_totalRounds ?t)"
    by (simp add: bracket4_def)
  have nonfinal: "m_round ?m < t_totalRounds ?t"
    by (simp add: bracket4_def)
  have ids: "distinct (map m_id (matches bracket4))"
    by (simp add: bracket4_def)
  have "\<not> isl (fst ?out)" by code_simp
  then have ok: "?out = (Inr (projr (fst ?out)), snd ?out)" by (rule outcome_Inr)
  have slots: "m_participant1Id ?m = Some 1" "m_participant2Id ?m = Some 4"
    by (simp_all add: bracket4_def)
  have dest: "at_index
      (sort_key m_matchNumber
         (filter (\<lambda>x. m_tournamentId x = m_tournamentId ?m \<and> m_round x = m_round ?m + 1)
            (matches bracket4)))
      ((m_matchNumber ?m - (1 + (\<Sum>k = 1..m_round ?m - 1. t_participantCount ?t div 2 ^ nat k)))
        div 2) = Some ?dm"
    by (simp add: bracket4_def at_index_def)
  have dm: "m_id ?dm = 7" "m_participant2Id ?dm = None" "m_status ?dm = Pending"
    by (simp_all add: bracket4_def)
  have idx: "m_matchNumber ?m - (1 + (\<Sum>k = 1..m_round ?m - 1. t_participantCount ?t div 2 ^ nat k)) = 0"
    by (simp add: bracket4_def)
  from advanceWinner_destination [OF m t pow nonfinal ids ok slots refl refl refl dest]
  show ?thesis unfolding idx dm by auto
qed

lemma updateScore_final_ok:
  assumes m: "getById m_id (matches d) matchId = Some m"
    and t: "getById t_id (tournaments d) (m_tournamentId m) = Some t"
    and final: "m_round m = t_totalRounds t"
    and ok: "updateScore today matchId score1 score2 d = (Inr r, d')"
    and slots: "m_participant1Id m = Some a" "m_participant2Id m = Some b"
    and w: "w = (if score1 > score2 then a else b)"
    and l: "l = (if score1 > score2 then b else a)"
    and ms: "ms = filter (\<lambda>x. m_tournamentId x = m_tournamentId m)
                (update m_id matchId (scoreUpdate score1 score2 w) (matches d))"
  shows "r = Some (scoreUpdate score1 score2 w m)"
    and "d' = d\<lparr>matches := update m_id matchId (scoreUpdate score1 score2 w) (matches d),
        participants := update p_id l
          (\<lambda>p. p\<lparr>p_status := Eliminated, p_eliminatedAtRound := Some (m_round m)\<rparr>)
          (participants d),
        results := results d @
          [\<lparr>r_id = nextId d, r_tournamentId = m_tournamentId m, r_championId = w,
            r_runnerUpId = l, r_thirdPlaceIds = thirdPlaceIdsOf t ms,
            r_totalMatches = int (length ms),
            r_totalParticipants = t_participantCount t\<rparr>],
        nextId := Suc (nextId d),
        tournaments := update t_id (m_tournamentId m)
          (\<lambda>x. x\<lparr>t_status := Finished, t_currentRound := t_totalRounds t,
                  t_endDate := Some today\<rparr>) (tournaments d)\<rparr>"
proof -
  from updateScore_ok_pre [OF m ok]
  have pre: "m_status m \<noteq> Pending" "0 \<le> score1" "0 \<le> score2" "score1 \<noteq> score2" by auto
  from updateScore_final_eq [OF m t final pre(1) slots pre(2-4) w l ms, of today] ok
  show "r = Some (scoreUpdate score1 score2 w m)" and "d' = d\<lparr>matches := update m_id matchId (scoreUpdate score1 score2 w) (matches d),
        participants := update p_id l
          (\<lambda>p. p\<lparr>p_status := Eliminated, p_eliminatedAtRound := Some (m_round m)\<rparr>)
          (participants d),
        results := results d @
          [\<lparr>r_id = nextId d, r_tournamentId = m_tournamentId m, r_championId = w,
            r_runnerUpId = l, r_thirdPlaceIds = thirdPlaceIdsOf t ms,
            r_totalMatches = int (length ms),
            r_totalParticipants = t_participantCount t\<rparr>],
        nextId := Suc (nextId d),
        tournaments := update t_id (m_tournamentId m)
          (\<lambda>x. x\<lparr>t_status := Finished, t_currentRound := t_totalRounds t,
                  t_endDate := Some today\<rparr>) (tournaments d)\<rparr>"
    by simp_all
qed

subsection \<open>Finalization\<close>

text \<open>
  C5. A successful \<open>updateScore\<close> on the match of round \<open>totalRounds\<close> appends exactly one
  result record for the tournament: the champion is the winner of the final, the runner-up
  its loser, the third places are, for each match of round \<open>totalRounds - 1\<close> with a recorded
  winner, the participant of that match that is not the winner (empty slots dropped), the
  match total is the number of matches of the tournament and the participant total is the
  participant count. The tournament is set to completed (\<open>Finished\<close>) with current round
  \<open>totalRounds\<close> and the day's date as end date.
\<close>

theorem final_score_finalizes:
  assumes m: "getById m_id (matches d) matchId = Some m"
    and t: "getById t_id (tournaments d) (m_tournamentId m) = Some t"
    and final: "m_round m = t_totalRounds t"
    and ok: "updateScore today matchId score1 score2 d = (Inr r, d')"
    and slots: "m_participant1Id m = Some a" "m_participant2Id m = Some b"
    and w: "winner = (if score1 > score2 then a else b)"
    and l: "loser = (if score1 > score2 then b else a)"
  shows "(\<exists>res. results d' = results d @ [res] \<and>
            r_tournamentId res = m_tournamentId m \<and>
            r_championId res = winner \<and>
            r_runnerUpId res = loser \<and>
            r_thirdPlaceIds res =
              List.map_filter (\<lambda>i. i)
                (map (\<lambda>s. if m_participant1Id s = m_winnerId s then m_participant2Id s
                           else m_participant1Id s)
                   (filter (\<lambda>s. m_winnerId s \<noteq> None)
                      (filter (\<lambda>s. m_tournamentId s = m_tournamentId m \<and>
                                    m_round s = t_totalRounds t - 1) (matches d)))) \<and>
            r_totalMatches res =
              int (length (filter (\<lambda>s. m_tournamentId s = m_tournamentId m) (matches d))) \<and>
            r_totalParticipants res = t_participantCount t) \<and>
         getById t_id (tournaments d') (m_tournamentId m) =
           Some (t\<lparr>t_status := Finished, t_currentRound := t_totalRounds t,
                   t_endDate := Some today\<rparr>)"
proof -
  define ms where "ms = filter (\<lambda>x. m_tournamentId x = m_tournamentId m)
                (update m_id matchId (scoreUpdate score1 score2 winner) (matches d))"
  note d' = updateScore_final_ok(2) [OF m t final ok slots w l ms_def]
  have len: "length ms = length (filter (\<lambda>s. m_tournamentId s = m_tournamentId m) (matches d))"
    unfolding ms_def by (rule length_filter_update) (simp add: scoreUpdate_keys)
  have "filter (\<lambda>s. m_round s = t_totalRounds t - 1) ms =
        filter (\<lambda>s. m_tournamentId s = m_tournamentId m \<and> m_round s = t_totalRounds t - 1)
          (update m_id matchId (scoreUpdate score1 score2 winner) (matches d))"
    by (simp add: ms_def conj_commute)
  also have "\<dots> = filter (\<lambda>s. m_tournamentId s = m_tournamentId m \<and> m_round s = t_totalRounds t - 1)
          (matches d)"
    using m by (rule filter_update_outside) (simp_all add: final scoreUpdate_keys)
  finally have semi: "filter (\<lambda>s. m_round s = t_totalRounds t - 1) ms =
        filter (\<lambda>s. m_tournamentId s = m_tournamentId m \<and> m_round s = t_totalRounds t - 1)
          (matches d)" .
  have third: "thirdPlaceIdsOf t ms =
      List.map_filter (\<lambda>i. i)
                (map (\<lambda>s. if m_participant1Id s = m_winnerId s then m_participant2Id s
                           else m_participant1Id s)
                   (filter (\<lambda>s. m_winnerId s \<noteq> None)
                      (filter (\<lambda>s. m_tournamentId s = m_tournamentId m \<and>
                                    m_round s = t_totalRounds t - 1) (matches d))))"
    by (simp add: thirdPlaceIdsOf_def semi semiFinalLoser_def [abs_def])
  have tour: "getById t_id (tournaments d') (m_tournamentId m) =
           Some (t\<lparr>t_status := Finished, t_currentRound := t_totalRounds t,
                   t_endDate := Some today\<rparr>)"
    unfolding d' using getById_update_same [OF t] getById_Some_id [OF t] by simp
  have res: "results d' = results d @
          [\<lparr>r_id = nextId d, r_tournamentId = m_tournamentId m, r_championId = winner,
            r_runnerUpId = loser, r_thirdPlaceIds = thirdPlaceIdsOf t ms,
            r_totalMatches = int (length ms),
            r_totalParticipants = t_participantCount t\<rparr>]"
    by (simp add: d')
  show ?thesis
    by (rule conjI [OF _ tour], rule exI, rule conjI [OF res]) (simp add: third len)
qed

lemma roster4_generate_assign:
  "snd (assignParticipants 0 (snd (generate 0 roster4))) = bracket4"
  by code_simp


theorem final_score_finalizes_witness:
  "\<exists>res. results (snd (updateScore ''2026-01-03'' 7 2 1 semisScored4)) = [res] \<and>
     r_tournamentId res = 0 \<and> r_championId res = 1 \<and> r_runnerUpId res = 3 \<and>
     r_thirdPlaceIds res = [4, 2] \<and> r_totalMatches res = 3 \<and> r_totalParticipants res = 4"
proof -
  let ?m = "matches semisScored4 ! 2" and ?t = "tournaments semisScored4 ! 0"
  let ?out = "updateScore ''2026-01-03'' 7 2 1 semisScored4"
  have m: "getById m_id (matches semisScored4) 7 = Some ?m"
    by (simp add: semisScored4_def getById_def)
  have t: "getById t_id (tournaments semisScored4) (m_tournamentId ?m) = Some ?t"
    by (simp add: semisScored4_def getById_def)
  have final: "m_round ?m = t_totalRounds ?t"
    by (simp add: semisScored4_def)
  have "\<not> isl (fst ?out)" by code_simp
  then have ok: "?out = (Inr (projr (fst ?out)), snd ?out)" by (rule outcome_Inr)
  have slots: "m_participant1Id ?m = Some 1" "m_participant2Id ?m = Some 3"
    by (simp_all add: semisScored4_def)
  have e: "results semisScored4 = []" "m_tournamentId ?m = 0" "t_participantCount ?t = 4"
     "int (length (filter (\<lambda>s. m_tournamentId s = 0) (matches semisScored4))) = 3"
     "List.map_filter (\<lambda>i. i)
                (map (\<lambda>s. if m_participant1Id s = m_winnerId s then m_participant2Id s
                           else m_participant1Id s)
                   (filter (\<lambda>s. m_winnerId s \<noteq> None)
                      (filter (\<lambda>s. m_tournamentId s = 0 \<and>
                                    m_round s = t_totalRounds ?t - 1) (matches semisScored4)))) = [4, 2]"
    by (simp_all add: semisScored4_def List.map_filter_simps)
  from final_score_finalizes [OF m t final ok slots refl refl]
  show ?thesis unfolding e by auto
qed

subsection \<open>Scoring the final again\<close>

text \<open>
  C7. \<open>updateScore\<close> rejects a pending match only: after a successful report on the final
  the match is completed, and a second report on it with any decisive scores succeeds as
  well and appends a second result record of the same tournament, so the tournament then has
  two result records.
\<close>

theorem rescoring_final_duplicates_result:
  assumes m: "getById m_id (matches d) matchId = Some m"
    and t: "getById t_id (tournaments d) (m_tournamentId m) = Some t"
    and final: "m_round m = t_totalRounds t"
    and ok: "updateScore today matchId score1 score2 d = (Inr r, d1)"
    and scores: "0 \<le> score1'" "0 \<le> score2'" "score1' \<noteq> score2'"
  shows "(\<exists>m1. getById m_id (matches d1) matchId = Some m1 \<and> m_status m1 = Completed) \<and>
         (\<exists>r2 d2 res1 res2.
            updateScore today' matchId score1' score2' d1 = (Inr r2, d2) \<and>
            results d2 = results d @ [res1, res2] \<and>
            r_tournamentId res1 = m_tournamentId m \<and> r_tournamentId res2 = m_tournamentId m)"
proof -
  from updateScore_ok_pre [OF m ok] obtain a b
    where slots: "m_participant1Id m = Some a" "m_participant2Id m = Some b" by auto
  define w where "w = (if score1 > score2 then a else b)"
  define m1 where "m1 = scoreUpdate score1 score2 w m"
  define t1 where "t1 = t\<lparr>t_status := Finished, t_currentRound := t_totalRounds t,
                  t_endDate := Some today\<rparr>"
  note d1 = updateScore_final_ok(2) [OF m t final ok slots w_def refl refl]
  have mid: "m_id m = matchId" using m by (rule getById_Some_id)
  have g1: "getById m_id (matches d1) matchId = Some m1"
    unfolding d1 m1_def using getById_update_same [OF m, of "scoreUpdate score1 score2 w"] mid
    by (simp add: scoreUpdate_keys)
  have m1: "m_status m1 = Completed" "m_tournamentId m1 = m_tournamentId m"
    "m_round m1 = m_round m" "m_participant1Id m1 = Some a" "m_participant2Id m1 = Some b"
    by (simp_all add: m1_def scoreUpdate_def slots)
  have gt: "getById t_id (tournaments d1) (m_tournamentId m1) = Some t1"
    unfolding d1 t1_def m1(2) using getById_update_same [OF t] getById_Some_id [OF t] by simp
  have final1: "m_round m1 = t_totalRounds t1" by (simp add: m1 final t1_def)
  have ready1: "m_status m1 \<noteq> Pending" by (simp add: m1)
  have r1: "results d1 = results d @ [\<lparr>r_id = nextId d, r_tournamentId = m_tournamentId m, r_championId = w,
            r_runnerUpId = (if score1 > score2 then b else a), r_thirdPlaceIds = thirdPlaceIdsOf t (filter (\<lambda>x. m_tournamentId x = m_tournamentId m)
                (update m_id matchId (scoreUpdate score1 score2 w) (matches d))),
            r_totalMatches = int (length (filter (\<lambda>x. m_tournamentId x = m_tournamentId m)
                (update m_id matchId (scoreUpdate score1 score2 w) (matches d)))),
            r_totalParticipants = t_participantCount t\<rparr>]" (is "_ = _ @ [?res1]")
    by (simp add: d1)
  note second = updateScore_final_eq [OF g1 gt final1 ready1 m1(4,5) scores refl refl refl, of today']
  have "\<exists>r2 d2 res2. updateScore today' matchId score1' score2' d1 = (Inr r2, d2) \<and>
            results d2 = results d @ [?res1, res2] \<and> r_tournamentId res2 = m_tournamentId m"
    unfolding second by (simp add: r1 m1(2))
  then have "\<exists>r2 d2 res1 res2.
            updateScore today' matchId score1' score2' d1 = (Inr r2, d2) \<and>
            results d2 = results d @ [res1, res2] \<and>
            r_tournamentId res1 = m_tournamentId m \<and> r_tournamentId res2 = m_tournamentId m"
    by (metis result.select_convs(2))
  moreover have "\<exists>m1. getById m_id (matches d1) matchId = Some m1 \<and> m_status m1 = Completed"
    using g1 m1(1) by blast
  ultimately show ?thesis by blast
qed

theorem rescoring_final_duplicates_result_witness:
  "\<exists>r2 d2 res1 res2.
      updateScore ''2026-01-04'' 7 1 2 (snd (updateScore ''2026-01-03'' 7 2 1 semisScored4)) =
        (Inr r2, d2) \<and>
      results d2 = [res1, res2] \<and> r_tournamentId res1 = 0 \<and> r_tournamentId res2 = 0"
proof -
  let ?m = "matches semisScored4 ! 2" and ?t = "tournaments semisScored4 ! 0"
  let ?out = "updateScore ''2026-01-03'' 7 2 1 semisScored4"
  have m: "getById m_id (matches semisScored4) 7 = Some ?m"
    by (simp add: semisScored4_def getById_def)
  have t: "getById t_id (tournaments semisScored4) (m_tournamentId ?m) = Some ?t"
    by (simp add: semisScored4_def getById_def)
  have final: "m_round ?m = t_totalRounds ?t"
    by (simp add: semisScored4_def)
  have "\<not> isl (fst ?out)" by code_simp
  then have ok: "?out = (Inr (projr (fst ?out)), snd ?out)" by (rule outcome_Inr)
  have e: "results semisScored4 = []" "m_tournamentId ?m = 0"
    by (simp_all add: semisScored4_def)
  from rescoring_final_duplicates_result [OF m t final ok, of 1 2 "''2026-01-04''"]
  show ?thesis unfolding e by simp
qed

subsection \<open>Current round\<close>

lemma advanceWinner_frame:
  assumes "getById t_id (tournaments d) (m_tournamentId m) = Some t"
  shows "fst (advanceWinner m w d) = Inr () \<and>
         tournaments (snd (advanceWinner m w d)) = tournaments d \<and>
         participants (snd (advanceWinner m w d)) = participants d \<and>
         results (snd (advanceWinner m w d)) = results d \<and>
         nextId (snd (advanceWinner m w d)) = nextId d"
  using assms
  by (simp add: advanceWinner_def getFirstMatchNumberOfRound_def Let_def split: option.splits)

lemma updateScore_other_eq:
  assumes m: "getById m_id (matches d) matchId = Some m"
    and t: "getById t_id (tournaments d) (m_tournamentId m) = Some t"
    and nonfinal: "m_round m \<noteq> t_totalRounds t"
    and ready: "m_status m \<noteq> Pending"
    and slots: "m_participant1Id m = Some a" "m_participant2Id m = Some b"
    and scores: "0 \<le> score1" "0 \<le> score2" "score1 \<noteq> score2"
    and w: "w = (if score1 > score2 then a else b)"
    and l: "l = (if score1 > score2 then b else a)"
    and d2: "d2 = d\<lparr>matches := update m_id matchId (scoreUpdate score1 score2 w) (matches d),
                    participants := update p_id l
                       (\<lambda>p. p\<lparr>p_status := Eliminated, p_eliminatedAtRound := Some (m_round m)\<rparr>)
                       (participants d)\<rparr>"
    and d3: "d3 = snd (advanceWinner m w d2)"
    and d4: "d4 = currentRoundLoop t (filter (\<lambda>x. m_tournamentId x = m_tournamentId m) (matches d3)) 1 d3"
  shows "updateScore today matchId score1 score2 d = (Inr (getById m_id (matches d4) matchId), d4)"
proof -
  have t2: "getById t_id (tournaments d2) (m_tournamentId m) = Some t"
    using t by (simp add: d2)
  have a: "advanceWinner m w d2 = (Inr (), d3)"
    using advanceWinner_frame [OF t2, of w] by (simp add: d3 prod_eq_iff)
  have t3: "tournaments d3 = tournaments d"
    using advanceWinner_frame [OF t2, of w] by (simp add: d3 d2)
  have e: "eliminate l (m_round m)
              (d\<lparr>matches := update m_id matchId (scoreUpdate score1 score2 w) (matches d)\<rparr>) = d2"
    by (simp add: eliminate_def d2)
  have t1: "getById t_id (tournaments
              (d\<lparr>matches := update m_id matchId (scoreUpdate score1 score2 w) (matches d)\<rparr>))
              (m_tournamentId m) = Some t"
    using t by simp
  have u: "updateCurrentRound (m_tournamentId m) d3 = (Inr (), d4)"
    using t t3 by (simp add: updateCurrentRound_def d4)
  show ?thesis
    unfolding updateScore_def
    using ready scores nonfinal
    by (simp add: m slots Let_def w [symmetric] l [symmetric] e t t1 a u del: One_nat_def
        split del: if_split)
qed

lemma incompleteRound_filter:
  "(\<not> list_all (\<lambda>m. m_status m = Completed) (filter (\<lambda>m. m_round m = r) ms)) = incompleteRound ms r"
  by (auto simp: incompleteRound_def list_all_iff)

lemma currentRoundLoop_found:
  assumes "r \<le> c" "c \<le> t_totalRounds t" "incompleteRound ms c"
    "\<forall>j. r \<le> j \<and> j < c \<longrightarrow> \<not> incompleteRound ms j"
  shows "currentRoundLoop t ms r d =
     (if t_currentRound t \<noteq> c
      then d\<lparr>tournaments := update t_id (t_id t) (\<lambda>x. x\<lparr>t_currentRound := c\<rparr>) (tournaments d)\<rparr>
      else d)"
  using assms
proof (induction t ms r d rule: currentRoundLoop.induct)
  case (1 t ms r d)
  show ?case
  proof (cases "r = c")
    case True
    with "1.prems" show ?thesis
      by (subst currentRoundLoop.simps) (simp add: incompleteRound_filter Let_def)
  next
    case False
    with "1.prems" have lt: "r < c" and no: "\<not> incompleteRound ms r" by auto
    have "currentRoundLoop t ms r d = currentRoundLoop t ms (r + 1) d"
      using lt "1.prems"(2) no
      by (subst currentRoundLoop.simps) (simp add: incompleteRound_filter Let_def)
    also have "\<dots> = (if t_currentRound t \<noteq> c
      then d\<lparr>tournaments := update t_id (t_id t) (\<lambda>x. x\<lparr>t_currentRound := c\<rparr>) (tournaments d)\<rparr>
      else d)"
    proof (rule "1.IH")
      show "r \<le> t_totalRounds t" using lt "1.prems"(2) by simp
      show "filter (\<lambda>m. m_round m = r) ms = filter (\<lambda>m. m_round m = r) ms" ..
      show "list_all (\<lambda>m. m_status m = Completed) (filter (\<lambda>m. m_round m = r) ms) =
            list_all (\<lambda>m. m_status m = Completed) (filter (\<lambda>m. m_round m = r) ms)" ..
      show "\<not> \<not> list_all (\<lambda>m. m_status m = Completed) (filter (\<lambda>m. m_round m = r) ms)"
        using no by (simp add: incompleteRound_filter [symmetric])
      show "r + 1 \<le> c" using lt by simp
      show "c \<le> t_totalRounds t" by fact
      show "incompleteRound ms c" by fact
      show "\<forall>j. r + 1 \<le> j \<and> j < c \<longrightarrow> \<not> incompleteRound ms j" using "1.prems"(4) by simp
    qed
    finally show ?thesis .
  qed
qed

lemma currentRoundLoop_none:
  assumes "\<forall>j. r \<le> j \<and> j \<le> t_totalRounds t \<longrightarrow> \<not> incompleteRound ms j"
  shows "currentRoundLoop t ms r d = d"
  using assms
proof (induction t ms r d rule: currentRoundLoop.induct)
  case (1 t ms r d)
  show ?case
  proof (cases "r \<le> t_totalRounds t")
    case True
    with "1.prems" have no: "\<not> incompleteRound ms r" by simp
    have "currentRoundLoop t ms r d = currentRoundLoop t ms (r + 1) d"
      using True no
      by (subst currentRoundLoop.simps) (simp add: incompleteRound_filter Let_def)
    also have "\<dots> = d"
    proof (rule "1.IH")
      show "r \<le> t_totalRounds t" by fact
      show "filter (\<lambda>m. m_round m = r) ms = filter (\<lambda>m. m_round m = r) ms" ..
      show "list_all (\<lambda>m. m_status m = Completed) (filter (\<lambda>m. m_round m = r) ms) =
            list_all (\<lambda>m. m_status m = Completed) (filter (\<lambda>m. m_round m = r) ms)" ..
      show "\<not> \<not> list_all (\<lambda>m. m_status m = Completed) (filter (\<lambda>m. m_round m = r) ms)"
        using no by (simp add: incompleteRound_filter [symmetric])
      show "\<forall>j. r + 1 \<le> j \<and> j \<le> t_totalRounds t \<longrightarrow> \<not> incompleteRound ms j"
        using "1.prems" by simp
    qed
    finally show ?thesis .
  next
    case False
    then show ?thesis by (subst currentRoundLoop.simps) simp
  qed
qed

lemma currentRound_after_score:
  assumes m: "getById m_id (matches d) matchId = Some m"
    and t: "getById t_id (tournaments d) (m_tournamentId m) = Some t"
    and ok: "updateScore today matchId score1 score2 d = (Inr r, d')"
    and ms': "ms' = filter (\<lambda>x. m_tournamentId x = m_tournamentId m) (matches d')"
  shows "\<exists>t'. getById t_id (tournaments d') (m_tournamentId m) = Some t' \<and>
           (m_round m \<noteq> t_totalRounds t \<longrightarrow>
              (\<forall>c. 1 \<le> c \<and> c \<le> t_totalRounds t \<and> incompleteRound ms' c \<and>
                   (\<forall>j. 1 \<le> j \<and> j < c \<longrightarrow> \<not> incompleteRound ms' j) \<longrightarrow>
                   t' = t\<lparr>t_currentRound := c\<rparr>)) \<and>
           (m_round m = t_totalRounds t \<longrightarrow> t_currentRound t' = t_totalRounds t)"
proof -
  from updateScore_ok_pre [OF m ok] obtain a b
    where slots: "m_participant1Id m = Some a" "m_participant2Id m = Some b"
      and pre: "m_status m \<noteq> Pending" "0 \<le> score1" "0 \<le> score2" "score1 \<noteq> score2"
    by auto
  define w where "w = (if score1 > score2 then a else b)"
  define l where "l = (if score1 > score2 then b else a)"
  have tid: "t_id t = m_tournamentId m" using t by (rule getById_Some_id)
  show ?thesis
  proof (cases "m_round m = t_totalRounds t")
    case True
    note d' = updateScore_final_ok(2) [OF m t True ok slots w_def l_def refl]
    have "getById t_id (tournaments d') (m_tournamentId m) =
           Some (t\<lparr>t_status := Finished, t_currentRound := t_totalRounds t,
                   t_endDate := Some today\<rparr>)"
      unfolding d' using getById_update_same [OF t] tid by simp
    with True show ?thesis by simp
  next
    case False
    define d2 where "d2 = d\<lparr>matches := update m_id matchId (scoreUpdate score1 score2 w) (matches d),
                    participants := update p_id l
                       (\<lambda>p. p\<lparr>p_status := Eliminated, p_eliminatedAtRound := Some (m_round m)\<rparr>)
                       (participants d)\<rparr>"
    define d3 where "d3 = snd (advanceWinner m w d2)"
    define ms where "ms = filter (\<lambda>x. m_tournamentId x = m_tournamentId m) (matches d3)"
    define d4 where "d4 = currentRoundLoop t ms 1 d3"
    have "updateScore today matchId score1 score2 d = (Inr (getById m_id (matches d4) matchId), d4)"
      unfolding d4_def ms_def
      by (rule updateScore_other_eq [OF m t False pre(1) slots pre(2-4) w_def l_def d2_def d3_def refl])
    with ok have d': "d' = d4" by simp
    have t2: "getById t_id (tournaments d2) (m_tournamentId m) = Some t"
      using t by (simp add: d2_def)
    have t3: "tournaments d3 = tournaments d"
      using advanceWinner_frame [OF t2, of w] by (simp add: d3_def d2_def)
    have mseq: "ms' = ms"
      by (simp add: ms' d' d4_def ms_def currentRoundLoop_fields)
    have found: "getById t_id (tournaments d') (m_tournamentId m) = Some (t\<lparr>t_currentRound := c\<rparr>)"
      if c: "1 \<le> c" "c \<le> t_totalRounds t" "incompleteRound ms c"
        "\<forall>j. 1 \<le> j \<and> j < c \<longrightarrow> \<not> incompleteRound ms j" for c
    proof (cases "t_currentRound t = c")
      case True
      then have "d4 = d3" unfolding d4_def using currentRoundLoop_found [OF c, of d3] by simp
      moreover have "t\<lparr>t_currentRound := c\<rparr> = t" using True by simp
      ultimately show ?thesis using t t3 by (simp add: d')
    next
      case False
      then have "tournaments d4 = update t_id (t_id t) (\<lambda>x. x\<lparr>t_currentRound := c\<rparr>) (tournaments d)"
        unfolding d4_def using currentRoundLoop_found [OF c, of d3] t3 by simp
      then show ?thesis
        unfolding d' using getById_update_same [OF t, of "\<lambda>x. x\<lparr>t_currentRound := c\<rparr>"] tid
        by simp
    qed
    have ex: "\<exists>t'. getById t_id (tournaments d') (m_tournamentId m) = Some t'"
    proof (cases "\<exists>c. 1 \<le> c \<and> c \<le> t_totalRounds t \<and> incompleteRound ms c \<and>
                   (\<forall>j. 1 \<le> j \<and> j < c \<longrightarrow> \<not> incompleteRound ms j)")
      case True
      then show ?thesis using found by blast
    next
      case False
      have "\<forall>j. 1 \<le> j \<and> j \<le> t_totalRounds t \<longrightarrow> \<not> incompleteRound ms j"
      proof (intro allI impI)
        fix j assume j: "1 \<le> j \<and> j \<le> t_totalRounds t"
        show "\<not> incompleteRound ms j"
          using j
        proof (induction "nat j" arbitrary: j rule: less_induct)
          case less
          show ?case
          proof
            assume inc: "incompleteRound ms j"
            have "\<forall>i. 1 \<le> i \<and> i < j \<longrightarrow> \<not> incompleteRound ms i"
              using less by (simp add: nat_less_iff)
            with inc less.prems False show False by blast
          qed
        qed
      qed
      then have "d4 = d3" unfolding d4_def by (rule currentRoundLoop_none)
      then show ?thesis using t t3 by (simp add: d')
    qed
    from ex obtain t' where t': "getById t_id (tournaments d') (m_tournamentId m) = Some t'" ..
    show ?thesis
      using t' found False by (auto simp: mseq)
  qed
qed

subsection \<open>Reset\<close>

lemma set_insort_cmp [simp]: "set (insort_cmp cmp x xs) = insert x (set xs)"
  by (induction xs) auto

lemma set_sort_cmp [simp]: "set (sort_cmp cmp xs) = set xs"
  by (induction xs) (simp_all add: sort_cmp_def)

lemma length_insort_cmp [simp]: "length (insort_cmp cmp x xs) = Suc (length xs)"
  by (induction xs) auto

lemma length_sort_cmp [simp]: "length (sort_cmp cmp xs) = length xs"
  by (induction xs) (simp_all add: sort_cmp_def)

lemma update_distinct_map:
  "distinct (map idf xs) \<Longrightarrow> update idf i f xs = map (\<lambda>x. if idf x = i then f x else x) xs"
proof (induction xs)
  case Nil
  then show ?case by simp
next
  case (Cons x xs)
  have "idf x \<notin> idf ` set xs" using Cons.prems by simp
  then have "idf y \<noteq> idf x" if "y \<in> set xs" for y
    using that by (metis imageI)
  then have "map (\<lambda>y. if idf y = i then f y else y) xs = xs" if "idf x = i"
    using that by (intro map_idI) simp
  with Cons show ?case by simp
qed

lemma set_getByTournament [simp]:
  "set (getByTournament tid d) = {p \<in> set (participants d). p_tournamentId p = tid}"
  by (auto simp: getByTournament_def)

lemma fold_restoreParticipant:
  assumes "distinct (map p_id (participants d))"
  shows "fold restoreParticipant ps d =
         d\<lparr>participants := map (\<lambda>x. if p_id x \<in> p_id ` set ps then restored x else x) (participants d)\<rparr>"
  using assms
proof (induction ps arbitrary: d)
  case Nil
  then show ?case by simp
next
  case (Cons p ps)
  let ?d1 = "restoreParticipant p d"
  have d1: "?d1 = d\<lparr>participants := map (\<lambda>x. if p_id x = p_id p then restored x else x) (participants d)\<rparr>"
    using Cons.prems by (simp add: restoreParticipant_def update_distinct_map restored_def [abs_def])
  have r: "p_id (restored x) = p_id x" "restored (restored x) = restored x" for x
    by (simp_all add: restored_def)
  have ids: "map p_id (participants ?d1) = map p_id (participants d)"
    unfolding d1 by (simp add: r)
  have comp: "map (\<lambda>x. if p_id x \<in> p_id ` set ps then restored x else x)
                (map (\<lambda>x. if p_id x = p_id p then restored x else x) xs) =
              map (\<lambda>x. if p_id x \<in> p_id ` set (p # ps) then restored x else x) xs" for xs
    by (simp add: r)
  have "fold restoreParticipant (p # ps) d = fold restoreParticipant ps ?d1" by simp
  also have "\<dots> = ?d1\<lparr>participants :=
      map (\<lambda>x. if p_id x \<in> p_id ` set ps then restored x else x) (participants ?d1)\<rparr>"
    by (rule Cons.IH) (simp add: ids Cons.prems)
  also have "\<dots> = d\<lparr>participants :=
      map (\<lambda>x. if p_id x \<in> p_id ` set (p # ps) then restored x else x) (participants d)\<rparr>"
    unfolding d1 using comp [of "participants d"] by simp
  finally show ?case .
qed

text \<open>
  C10. In a store whose participant ids are distinct, \<open>reset\<close> on a tournament that is not
  completed deletes the matches and the results of the tournament, sets each of its
  participants to active with no elimination round, leaves every other record alone and sets
  the tournament to draft with current round 1; on a completed tournament it fails with
  \<open>CannotResetCompleted\<close> and the store is unchanged.
\<close>

theorem reset_restores:
  assumes t: "getById t_id (tournaments d) tid = Some t"
    and ids: "distinct (map p_id (participants d))"
  shows "(t_status t \<noteq> Finished \<longrightarrow>
            reset tid d =
              (Inr (),
               d\<lparr>matches := filter (\<lambda>m. m_tournamentId m \<noteq> tid) (matches d),
                 results := filter (\<lambda>r. r_tournamentId r \<noteq> tid) (results d),
                 participants :=
                   map (\<lambda>p. if p_tournamentId p = tid
                             then p\<lparr>p_status := Active, p_eliminatedAtRound := None\<rparr> else p)
                     (participants d),
                 tournaments :=
                   update t_id tid (\<lambda>x. x\<lparr>t_status := Draft, t_currentRound := 1\<rparr>)
                     (tournaments d)\<rparr>) \<and>
            getById t_id (tournaments (snd (reset tid d))) tid =
              Some (t\<lparr>t_status := Draft, t_currentRound := 1\<rparr>)) \<and>
         (t_status t = Finished \<longrightarrow> reset tid d = (Inl CannotResetCompleted, d))"
proof -
  define d2 where "d2 = d\<lparr>matches := deleteWhere (\<lambda>m. m_tournamentId m = tid) (matches d),
                          results := deleteWhere (\<lambda>r. r_tournamentId r = tid) (results d)\<rparr>"
  have ids2: "distinct (map p_id (participants d2))" using ids by (simp add: d2_def)
  have inj: "inj_on p_id (set (participants d))" using ids by (simp add: distinct_map)
  have mem: "(p_id x \<in> p_id ` {p \<in> set (participants d2). p_tournamentId p = tid}) =
             (p_tournamentId x = tid)"
    if "x \<in> set (participants d)" for x
  proof
    assume "p_id x \<in> p_id ` {p \<in> set (participants d2). p_tournamentId p = tid}"
    then obtain y where y: "y \<in> set (participants d)" "p_tournamentId y = tid" "p_id y = p_id x"
      by (auto simp: d2_def)
    from inj y(3) y(1) that have "y = x" by (rule inj_onD)
    with y show "p_tournamentId x = tid" by simp
  next
    assume "p_tournamentId x = tid"
    with that show "p_id x \<in> p_id ` {p \<in> set (participants d2). p_tournamentId p = tid}"
      by (simp add: d2_def)
  qed
  have parts: "participants (fold restoreParticipant (getByTournament tid d2) d2) =
      map (\<lambda>p. if p_tournamentId p = tid
                 then p\<lparr>p_status := Active, p_eliminatedAtRound := None\<rparr> else p) (participants d)"
  proof -
    have "map (\<lambda>x. if p_id x \<in> p_id ` set (getByTournament tid d2) then restored x else x)
            (participants d) =
          map (\<lambda>p. if p_tournamentId p = tid
                 then p\<lparr>p_status := Active, p_eliminatedAtRound := None\<rparr> else p) (participants d)"
      by (rule map_cong [OF refl]) (simp add: mem restored_def)
    then show ?thesis
      unfolding fold_restoreParticipant [OF ids2] by (simp add: d2_def)
  qed
  have rest: "fold restoreParticipant (getByTournament tid d2) d2 =
      d2\<lparr>participants := map (\<lambda>p. if p_tournamentId p = tid
                 then p\<lparr>p_status := Active, p_eliminatedAtRound := None\<rparr> else p) (participants d)\<rparr>"
    using parts unfolding fold_restoreParticipant [OF ids2] by simp
  have ok: "t_status t \<noteq> Finished \<Longrightarrow> reset tid d =
              (Inr (),
               d\<lparr>matches := filter (\<lambda>m. m_tournamentId m \<noteq> tid) (matches d),
                 results := filter (\<lambda>r. r_tournamentId r \<noteq> tid) (results d),
                 participants :=
                   map (\<lambda>p. if p_tournamentId p = tid
                             then p\<lparr>p_status := Active, p_eliminatedAtRound := None\<rparr> else p)
                     (participants d),
                 tournaments :=
                   update t_id tid (\<lambda>x. x\<lparr>t_status := Draft, t_currentRound := 1\<rparr>)
                     (tournaments d)\<rparr>)"
    using t by (simp add: reset_def Let_def d2_def [symmetric] rest) (simp add: d2_def deleteWhere_def)
  have g: "getById t_id (update t_id tid (\<lambda>x. x\<lparr>t_status := Draft, t_currentRound := 1\<rparr>)
                     (tournaments d)) tid = Some (t\<lparr>t_status := Draft, t_currentRound := 1\<rparr>)"
    using getById_update_same [OF t] getById_Some_id [OF t] by simp
  have bad: "t_status t = Finished \<Longrightarrow> reset tid d = (Inl CannotResetCompleted, d)"
    using t by (simp add: reset_def)
  show ?thesis using ok g bad by simp
qed


theorem reset_restores_witness:
  "reset 0 semisScored4 = (Inr (), roster4\<lparr>nextId := 8\<rparr>) \<and>
   reset 0 finished4 = (Inl CannotResetCompleted, finished4)"
proof -
  let ?t = "tournaments semisScored4 ! 0" and ?t' = "tournaments finished4 ! 0"
  have t: "getById t_id (tournaments semisScored4) 0 = Some ?t"
    by (simp add: semisScored4_def getById_def)
  have ids: "distinct (map p_id (participants semisScored4))"
    by (simp add: semisScored4_def seededParticipant_def)
  have s: "t_status ?t \<noteq> Finished" by (simp add: semisScored4_def)
  have t': "getById t_id (tournaments finished4) 0 = Some ?t'"
    by (simp add: finished4_def getById_def)
  have ids': "distinct (map p_id (participants finished4))"
    by (simp add: finished4_def seededParticipant_def)
  have s': "t_status ?t' = Finished" by (simp add: finished4_def)
  from reset_restores [OF t ids] s
  have "reset 0 semisScored4 = (Inr (), roster4\<lparr>nextId := 8\<rparr>)"
    by (simp add: semisScored4_def roster4_def seededParticipant_def)
  moreover from reset_restores [OF t' ids'] s'
  have "reset 0 finished4 = (Inl CannotResetCompleted, finished4)" by simp
  ultimately show ?thesis by simp
qed

subsection \<open>Generating the bracket\<close>

lemma numbered_append:
  "numbered tid i n (xs @ ys) =
   numbered tid i n xs @ numbered tid (i + length xs) (n + int (length xs)) ys"
  by (induction xs arbitrary: i n) (simp_all add: add.assoc)

lemma length_numbered [simp]: "length (numbered tid i n rs) = length rs"
  by (induction rs arbitrary: i n) simp_all

lemma generateMatches_eq:
  "generateMatches tid r k (d, ms, n) =
     (d\<lparr>matches := matches d @ numbered tid (nextId d) n (replicate k r),
        nextId := nextId d + k\<rparr>,
      ms @ numbered tid (nextId d) n (replicate k r), n + int k)"
proof (induction k arbitrary: d ms n)
  case 0
  then show ?case by simp
next
  case (Suc k)
  show ?case
    by (simp add: insert_match_def Let_def Suc.IH)
qed

lemma roundsFrom_step:
  "r \<le> K \<Longrightarrow> roundsFrom pc K r = replicate (nat (pc div 2 ^ nat r)) r @ roundsFrom pc K (r + 1)"
  by (simp add: roundsFrom_def upto_rec1 [of r K])

lemma roundsFrom_empty: "K < r \<Longrightarrow> roundsFrom pc K r = []"
  by (simp add: roundsFrom_def)

lemma generateRounds_eq:
  "generateRounds tid pc K r (d, ms, n) =
     (d\<lparr>matches := matches d @ numbered tid (nextId d) n (roundsFrom pc K r),
        nextId := nextId d + length (roundsFrom pc K r)\<rparr>,
      ms @ numbered tid (nextId d) n (roundsFrom pc K r),
      n + int (length (roundsFrom pc K r)))"
proof (induction "nat (K + 1 - r)" arbitrary: r d ms n)
  case 0
  then have "K < r" by simp
  then show ?case
    by (subst generateRounds.simps) (simp add: roundsFrom_empty)
next
  case (Suc k)
  then have le: "r \<le> K" and k: "k = nat (K + 1 - (r + 1))" by simp_all
  show ?case
    using le
    by (subst generateRounds.simps)
      (simp add: generateMatches_eq Suc.hyps(1) [OF k] roundsFrom_step numbered_append
        add.assoc)
qed

lemma pow_and_mask: "(2 ^ k :: 32 word) AND (2 ^ k - 1) = 0"
proof -
  have "(2 ^ k :: 32 word) AND mask k = 0"
    by (rule bit_eqI) (simp add: bit_and_iff bit_exp_iff bit_mask_iff)
  then show ?thesis by (simp add: mask_eq_exp_minus_1)
qed

lemma isPowerOfTwo_power: "isPowerOfTwo (2 ^ k)"
  by (simp add: isPowerOfTwo_def pow_and_mask)

lemma log2_power: "log2 (2 ^ k) = int k"
proof (induction k)
  case 0
  then show ?case by (subst log2.simps) simp
next
  case (Suc k)
  have "(0::int) < 2 ^ k" by simp
  then have "(1::int) < 2 * 2 ^ k" by linarith
  then show ?case using Suc by (subst log2.simps) simp
qed

lemma int_pow_div: "j \<le> k \<Longrightarrow> (2::int) ^ k div 2 ^ j = 2 ^ (k - j)"
  by (simp add: power_diff)

lemma roundsFrom_length:
  "1 \<le> r \<Longrightarrow> r \<le> int k + 1 \<Longrightarrow>
   int (length (roundsFrom (2 ^ k) (int k) r)) = 2 ^ nat (int k + 1 - r) - 1"
proof (induction "nat (int k + 1 - r)" arbitrary: r)
  case 0
  then have "int k < r" by simp
  moreover from this 0 have "nat (int k + 1 - r) = 0" by simp
  ultimately show ?case by (simp add: roundsFrom_empty)
next
  case (Suc n)
  then have le: "r \<le> int k" and n: "n = nat (int k + 1 - (r + 1))" by simp_all
  have j: "nat r \<le> k" using le by simp
  have e: "nat (int k + 1 - r) = Suc (k - nat r)" "nat (int k - r) = k - nat r"
    using Suc.prems le by linarith+
  have ih: "int (length (roundsFrom (2 ^ k) (int k) (r + 1))) = 2 ^ (k - nat r) - 1"
    using Suc.hyps(1) [OF n] Suc.prems le by (simp add: e(2))
  have c: "int (nat ((2::int) ^ k div 2 ^ nat r)) = 2 ^ (k - nat r)"
    by (simp only: int_pow_div [OF j]) simp
  have "int (length (roundsFrom (2 ^ k) (int k) r)) =
        int (nat ((2::int) ^ k div 2 ^ nat r)) + int (length (roundsFrom (2 ^ k) (int k) (r + 1)))"
    by (simp only: roundsFrom_step [OF le] length_append length_replicate of_nat_add)
  also have "\<dots> = 2 ^ (k - nat r) + (2 ^ (k - nat r) - 1)"
    by (simp only: c ih)
  also have "\<dots> = 2 ^ Suc (k - nat r) - 1" by simp
  finally show ?case by (simp only: e(1))
qed

lemma roundsFrom_count:
  "length (filter (\<lambda>x. x = j) (roundsFrom pc K r)) =
     (if r \<le> j \<and> j \<le> K then nat (pc div 2 ^ nat j) else 0)"
proof (induction "nat (K + 1 - r)" arbitrary: r)
  case 0
  then have "K < r" by simp
  then show ?case by (simp add: roundsFrom_empty)
next
  case (Suc n)
  then have le: "r \<le> K" and n: "n = nat (K + 1 - (r + 1))" by simp_all
  note ih = Suc.hyps(1) [OF n]
  have split: "length (filter (\<lambda>x. x = j) (roundsFrom pc K r)) =
      length (filter (\<lambda>x. x = j) (replicate (nat (pc div 2 ^ nat r)) r)) +
      length (filter (\<lambda>x. x = j) (roundsFrom pc K (r + 1)))"
    by (simp only: roundsFrom_step [OF le] filter_append length_append)
  show ?case
  proof (cases "j = r")
    case True
    then have "length (filter (\<lambda>x. x = j) (roundsFrom pc K (r + 1))) = 0"
      unfolding ih by simp
    with True le show ?thesis unfolding split by simp
  next
    case False
    then have "(r \<le> j \<and> j \<le> K) = (r + 1 \<le> j \<and> j \<le> K)" by arith
    with False show ?thesis unfolding split ih by simp
  qed
qed

lemma roundsFrom_set: "x \<in> set (roundsFrom pc K r) \<Longrightarrow> r \<le> x \<and> x \<le> K"
  by (auto simp: roundsFrom_def)

lemma roundsFrom_sorted: "sorted (roundsFrom pc K r)"
proof (induction "nat (K + 1 - r)" arbitrary: r)
  case 0
  then have "K < r" by simp
  then show ?case by (simp add: roundsFrom_empty)
next
  case (Suc n)
  then have le: "r \<le> K" and n: "n = nat (K + 1 - (r + 1))" by simp_all
  have "\<forall>x\<in>set (roundsFrom pc K (r + 1)). r \<le> x"
    using roundsFrom_set [of _ pc K "r + 1"] by fastforce
  then show ?case
    using le Suc.hyps(1) [OF n] by (simp add: roundsFrom_step sorted_append)
qed

lemma numbered_rounds [simp]: "map m_round (numbered tid i n rs) = rs"
  by (induction rs arbitrary: i n) (simp_all add: newMatch_def)

lemma numbered_nth:
  "j < length rs \<Longrightarrow>
   m_matchNumber (numbered tid i n rs ! j) = n + int j \<and> m_id (numbered tid i n rs ! j) = i + j"
proof (induction rs arbitrary: i n j)
  case Nil
  then show ?case by simp
next
  case (Cons r rs)
  show ?case
  proof (cases j)
    case 0
    then show ?thesis by (simp add: newMatch_def)
  next
    case (Suc j')
    with Cons.prems have "j' < length rs" by simp
    from Cons.IH [OF this, of "Suc i" "n + 1"] Suc show ?thesis by simp
  qed
qed

lemma numbered_fields:
  "m \<in> set (numbered tid i n rs) \<Longrightarrow>
   m_tournamentId m = tid \<and> m_participant1Id m = None \<and> m_participant2Id m = None \<and>
   m_winnerId m = None \<and> m_score1 m = None \<and> m_score2 m = None \<and> m_status m = Pending"
  by (induction rs arbitrary: i n) (auto simp: newMatch_def)

lemma numbered_filter_round:
  "length (filter (\<lambda>m. m_round m = j) (numbered tid i n rs)) = length (filter (\<lambda>x. x = j) rs)"
  by (induction rs arbitrary: i n) (simp_all add: newMatch_def)

lemma generate_eq:
  assumes t: "getById t_id (tournaments d) tid = Some t"
    and draft: "t_status t = Draft"
    and pow: "t_participantCount t = 2 ^ k"
    and N: "N = numbered tid (nextId d) 1 (roundsFrom (2 ^ k) (int k) 1)"
  shows "generate tid d =
     (Inr N,
      d\<lparr>matches := matches d @ N, nextId := nextId d + length N,
        tournaments := update t_id tid
          (\<lambda>x. x\<lparr>t_status := Registration, t_totalRounds := int k\<rparr>) (tournaments d)\<rparr>)"
  using t draft
  by (simp add: generate_def pow isPowerOfTwo_power log2_power generateRounds_eq N Let_def)

text \<open>
  C2. For a tournament in draft whose participant count is \<open>2 ^ k\<close>, \<open>generate\<close> appends
  \<open>2 ^ k - 1\<close> match records to the store and returns them: \<open>2 ^ k div 2 ^ r\<close> of them in
  each round \<open>r = 1 .. k\<close> (half the participant count in round 1, one in round \<open>k\<close>),
  each with empty participant, winner and score fields and status pending, the match numbers
  running from 1 in creation order and the rounds never decreasing along it; the tournament
  is then in registration with \<open>totalRounds = k\<close>. For a tournament that is not in draft it
  fails with \<open>AlreadyGenerated\<close> and leaves the store alone.
\<close>

theorem generate_bracket:
  assumes t: "getById t_id (tournaments d) tid = Some t"
  shows "(t_status t = Draft \<and> t_participantCount t = 2 ^ k \<longrightarrow>
           (\<exists>ms d'. generate tid d = (Inr ms, d') \<and>
              matches d' = matches d @ ms \<and>
              int (length ms) = 2 ^ k - 1 \<and>
              (\<forall>r. 1 \<le> r \<and> r \<le> int k \<longrightarrow>
                 int (length (filter (\<lambda>m. m_round m = r) ms)) = 2 ^ k div 2 ^ nat r) \<and>
              (\<forall>m\<in>set ms. 1 \<le> m_round m \<and> m_round m \<le> int k \<and> m_tournamentId m = tid \<and>
                 m_participant1Id m = None \<and> m_participant2Id m = None \<and>
                 m_winnerId m = None \<and> m_score1 m = None \<and> m_score2 m = None \<and>
                 m_status m = Pending) \<and>
              (\<forall>j<length ms. m_matchNumber (ms ! j) = 1 + int j) \<and>
              sorted (map m_round ms) \<and>
              getById t_id (tournaments d') tid =
                Some (t\<lparr>t_status := Registration, t_totalRounds := int k\<rparr>))) \<and>
         (t_status t \<noteq> Draft \<longrightarrow> generate tid d = (Inl AlreadyGenerated, d))"
proof -
  define N where "N = numbered tid (nextId d) 1 (roundsFrom (2 ^ k) (int k) 1)"
  have len: "int (length N) = 2 ^ k - 1"
    using roundsFrom_length [of 1 k] by (simp add: N_def)
  have cnt: "int (length (filter (\<lambda>m. m_round m = r) N)) = 2 ^ k div 2 ^ nat r"
    if "1 \<le> r \<and> r \<le> int k" for r
  proof -
    have "(0::int) \<le> 2 ^ k div 2 ^ nat r" by (simp add: pos_imp_zdiv_nonneg_iff)
    then show ?thesis
      using that by (simp add: N_def numbered_filter_round roundsFrom_count)
  qed
  have fields: "1 \<le> m_round m \<and> m_round m \<le> int k \<and> m_tournamentId m = tid \<and>
                 m_participant1Id m = None \<and> m_participant2Id m = None \<and>
                 m_winnerId m = None \<and> m_score1 m = None \<and> m_score2 m = None \<and>
                 m_status m = Pending" if "m \<in> set N" for m
  proof -
    from that have "m_round m \<in> set (map m_round N)" by simp
    then have "m_round m \<in> set (roundsFrom (2 ^ k) (int k) 1)" by (simp add: N_def)
    with roundsFrom_set have "1 \<le> m_round m \<and> m_round m \<le> int k" by blast
    with numbered_fields [OF that [unfolded N_def]] show ?thesis by simp
  qed
  have nums: "m_matchNumber (N ! j) = 1 + int j" if "j < length N" for j
    using that numbered_nth [of j "roundsFrom (2 ^ k) (int k) 1" tid "nextId d" 1]
    by (simp add: N_def)
  have srt: "sorted (map m_round N)" by (simp add: N_def roundsFrom_sorted)
  have tour: "getById t_id (update t_id tid
          (\<lambda>x. x\<lparr>t_status := Registration, t_totalRounds := int k\<rparr>) (tournaments d)) tid =
        Some (t\<lparr>t_status := Registration, t_totalRounds := int k\<rparr>)"
    using getById_update_same [OF t] getById_Some_id [OF t] by simp
  have ok: "\<exists>ms d'. generate tid d = (Inr ms, d') \<and>
              matches d' = matches d @ ms \<and>
              int (length ms) = 2 ^ k - 1 \<and>
              (\<forall>r. 1 \<le> r \<and> r \<le> int k \<longrightarrow>
                 int (length (filter (\<lambda>m. m_round m = r) ms)) = 2 ^ k div 2 ^ nat r) \<and>
              (\<forall>m\<in>set ms. 1 \<le> m_round m \<and> m_round m \<le> int k \<and> m_tournamentId m = tid \<and>
                 m_participant1Id m = None \<and> m_participant2Id m = None \<and>
                 m_winnerId m = None \<and> m_score1 m = None \<and> m_score2 m = None \<and>
                 m_status m = Pending) \<and>
              (\<forall>j<length ms. m_matchNumber (ms ! j) = 1 + int j) \<and>
              sorted (map m_round ms) \<and>
              getById t_id (tournaments d') tid =
                Some (t\<lparr>t_status := Registration, t_totalRounds := int k\<rparr>)"
    if "t_status t = Draft" "t_participantCount t = 2 ^ k"
  proof (intro exI conjI)
    show "generate tid d = (Inr N,
      d\<lparr>matches := matches d @ N, nextId := nextId d + length N,
        tournaments := update t_id tid
          (\<lambda>x. x\<lparr>t_status := Registration, t_totalRounds := int k\<rparr>) (tournaments d)\<rparr>)"
      by (rule generate_eq [OF t that N_def])
  qed (use len cnt fields nums srt tour in simp_all)
  have bad: "generate tid d = (Inl AlreadyGenerated, d)" if "t_status t \<noteq> Draft"
    using t that by (simp add: generate_def)
  from ok bad show ?thesis by blast
qed

theorem generate_bracket_witness:
  "(\<exists>ms d'. generate 0 roster4 = (Inr ms, d') \<and> matches d' = ms \<and> int (length ms) = 3 \<and>
       int (length (filter (\<lambda>m. m_round m = 1) ms)) = 2 \<and>
       int (length (filter (\<lambda>m. m_round m = 2) ms)) = 1) \<and>
   generate 0 bracket4 = (Inl AlreadyGenerated, bracket4)"
proof -
  let ?t = "tournaments roster4 ! 0" and ?t' = "tournaments bracket4 ! 0"
  have t: "getById t_id (tournaments roster4) 0 = Some ?t"
    by (simp add: roster4_def getById_def)
  have s: "t_status ?t = Draft \<and> t_participantCount ?t = 2 ^ 2"
    by (simp add: roster4_def)
  have e: "matches roster4 = []" by (simp add: roster4_def)
  have t': "getById t_id (tournaments bracket4) 0 = Some ?t'"
    by (simp add: bracket4_def getById_def)
  have s': "t_status ?t' \<noteq> Draft" by (simp add: bracket4_def)
  from generate_bracket [OF t, of 2] s obtain ms d'
    where g: "generate 0 roster4 = (Inr ms, d')" "matches d' = matches roster4 @ ms"
      "int (length ms) = 2 ^ 2 - 1"
      and c: "\<forall>r. 1 \<le> r \<and> r \<le> int 2 \<longrightarrow>
                 int (length (filter (\<lambda>m. m_round m = r) ms)) = 2 ^ 2 div 2 ^ nat r"
    by blast
  from c [rule_format, of 1] c [rule_format, of 2]
  have "int (length (filter (\<lambda>m. m_round m = 1) ms)) = 2"
    "int (length (filter (\<lambda>m. m_round m = 2) ms)) = 1" by simp_all
  with g e have "\<exists>ms d'. generate 0 roster4 = (Inr ms, d') \<and> matches d' = ms \<and> int (length ms) = 3 \<and>
       int (length (filter (\<lambda>m. m_round m = 1) ms)) = 2 \<and>
       int (length (filter (\<lambda>m. m_round m = 2) ms)) = 1" by simp
  moreover from generate_bracket [OF t'] s'
  have "generate 0 bracket4 = (Inl AlreadyGenerated, bracket4)" by simp
  ultimately show ?thesis by (rule conjI)
qed

subsection \<open>Seeding the first round\<close>

lemma bySeed_cases:
  "seeded a \<Longrightarrow> seeded b \<Longrightarrow> (bySeed a b \<le> 0) = (seedOf a \<le> seedOf b)"
  "seeded a \<Longrightarrow> \<not> seeded b \<Longrightarrow> bySeed a b \<le> 0"
  "\<not> seeded a \<Longrightarrow> seeded b \<Longrightarrow> \<not> bySeed a b \<le> 0"
  "\<not> seeded a \<Longrightarrow> \<not> seeded b \<Longrightarrow> bySeed a b \<le> 0"
  by (simp_all add: bySeed_def)

lemma insort_bySeed_seeded:
  assumes "seeded x" "\<forall>a\<in>set as. seeded a" "\<forall>b\<in>set bs. \<not> seeded b"
  shows "insort_cmp bySeed x (as @ bs) = insort_key seedOf x as @ bs"
  using assms
proof (induction as)
  case Nil
  then show ?case by (cases bs) (simp_all add: bySeed_cases)
next
  case (Cons a as)
  then show ?case by (simp add: bySeed_cases)
qed

lemma insort_bySeed_unseeded:
  assumes "\<not> seeded x" "\<forall>a\<in>set as. seeded a" "\<forall>b\<in>set bs. \<not> seeded b"
  shows "insort_cmp bySeed x (as @ bs) = as @ x # bs"
  using assms
proof (induction as)
  case Nil
  then show ?case by (cases bs) (simp_all add: bySeed_cases)
next
  case (Cons a as)
  then show ?case by (simp add: bySeed_cases)
qed

lemma sort_cmp_bySeed:
  "sort_cmp bySeed ps = sort_key seedOf (filter seeded ps) @ filter (\<lambda>p. \<not> seeded p) ps"
proof (induction ps)
  case Nil
  then show ?case by (simp add: sort_cmp_def)
next
  case (Cons p ps)
  have "sort_cmp bySeed (p # ps) = insort_cmp bySeed p (sort_cmp bySeed ps)"
    by (simp add: sort_cmp_def)
  also have "\<dots> = insort_cmp bySeed p
      (sort_key seedOf (filter seeded ps) @ filter (\<lambda>p. \<not> seeded p) ps)"
    by (simp only: Cons.IH)
  also have "\<dots> = sort_key seedOf (filter seeded (p # ps)) @ filter (\<lambda>p. \<not> seeded p) (p # ps)"
  proof (cases "seeded p")
    case True
    then show ?thesis by (simp add: insort_bySeed_seeded)
  next
    case False
    then show ?thesis by (simp add: insort_bySeed_unseeded)
  qed
  finally show ?case .
qed

lemma seedPairingsLoop_eq:
  "i \<le> (length ps + 1) div 2 \<Longrightarrow>
   seedPairingsLoop ps i acc =
     acc @ map (\<lambda>j. (ps ! j, ps ! (length ps - 1 - j))) [i..<(length ps + 1) div 2]"
proof (induction "(length ps + 1) div 2 - i" arbitrary: i acc)
  case 0
  then have "\<not> 2 * i < length ps" by arith
  with 0 show ?case by (subst seedPairingsLoop.simps) simp
next
  case (Suc n)
  then have lt: "2 * i < length ps" and i: "i < (length ps + 1) div 2"
    and n: "n = (length ps + 1) div 2 - (i + 1)" by arith+
  have "seedPairingsLoop ps i acc =
        seedPairingsLoop ps (i + 1) (acc @ [(ps ! i, ps ! (length ps - 1 - i))])"
    using lt by (subst seedPairingsLoop.simps) simp
  also have "\<dots> = (acc @ [(ps ! i, ps ! (length ps - 1 - i))]) @
      map (\<lambda>j. (ps ! j, ps ! (length ps - 1 - j))) [i + 1..<(length ps + 1) div 2]"
    using i by (intro Suc.hyps(1) [OF n]) simp
  also have "\<dots> = acc @ map (\<lambda>j. (ps ! j, ps ! (length ps - 1 - j))) [i..<(length ps + 1) div 2]"
    using i by (simp add: upt_conv_Cons)
  finally show ?case .
qed

lemma createSeedPairings_eq:
  "createSeedPairings ps =
     map (\<lambda>j. (ps ! j, ps ! (length ps - 1 - j))) [0..<(length ps + 1) div 2]"
  by (simp add: createSeedPairings_def seedPairingsLoop_eq)

lemma assignTo_id [simp]: "m_id (assignTo F ip y) = m_id y"
  by (simp add: assignTo_def assignPair_def)

lemma fold_assignTo_id [simp]: "m_id (fold (assignTo F) js y) = m_id y"
  by (induction js arbitrary: y) simp_all

lemma assignStep_map:
  assumes "distinct (map m_id (matches d))"
  shows "assignStep F ip d = d\<lparr>matches := map (assignTo F ip) (matches d)\<rparr>"
proof (cases "fst ip < length F")
  case True
  then have "at_index F (int (fst ip)) = Some (F ! fst ip)" by (simp add: at_index_def)
  then show ?thesis
    using assms True by (simp add: assignStep_def update_distinct_map assignTo_def [abs_def])
next
  case False
  then have "at_index F (int (fst ip)) = None" by (simp add: at_index_def)
  moreover have "map (assignTo F ip) (matches d) = matches d"
    using False by (intro map_idI) (simp add: assignTo_def)
  ultimately show ?thesis by (simp add: assignStep_def)
qed

lemma fold_assignStep:
  assumes "distinct (map m_id (matches d))"
  shows "fold (assignStep F) js d = d\<lparr>matches := map (fold (assignTo F) js) (matches d)\<rparr>"
  using assms
proof (induction js arbitrary: d)
  case Nil
  then show ?case by simp
next
  case (Cons ip js)
  let ?d1 = "d\<lparr>matches := map (assignTo F ip) (matches d)\<rparr>"
  have "distinct (map m_id (matches ?d1))" using Cons.prems by (simp add: o_def)
  from Cons.IH [OF this] show ?case
    by (simp add: assignStep_map [OF Cons.prems])
qed

lemma fold_assignTo_hit:
  assumes "distinct (map m_id F)" "i < length F" "m_id y = m_id (F ! i)"
  shows "fold (assignTo F) (enumerate k ps) y =
         (if k \<le> i \<and> i < k + length ps then assignPair (ps ! (i - k)) y else y)"
  using assms(3)
proof (induction ps arbitrary: k y)
  case Nil
  show ?case by auto
next
  case (Cons p ps)
  have eq: "(m_id (F ! k) = m_id (F ! i)) = (k = i)" if "k < length F"
    using assms(1,2) that nth_eq_iff_index_eq [of "map m_id F" k i] by simp
  show ?case
  proof (cases "k = i")
    case True
    have "m_id (assignPair p y) = m_id (F ! i)" using Cons.prems by (simp add: assignPair_def)
    from Cons.IH [OF this, of "Suc k"] True show ?thesis
      using assms(2) Cons.prems by (simp add: assignTo_def)
  next
    case False
    then have "assignTo F (k, p) y = y"
      using eq Cons.prems by (auto simp: assignTo_def)
    with Cons.IH [OF Cons.prems, of "Suc k"] False show ?thesis
      by (auto simp: nth_Cons' Suc_diff_Suc less_Suc_eq_le)
  qed
qed

lemma fold_assignTo_miss:
  "m_id y \<notin> m_id ` set F \<Longrightarrow> fold (assignTo F) js y = y"
proof (induction js arbitrary: y)
  case Nil
  then show ?case by simp
next
  case (Cons ip js)
  then have "assignTo F ip y = y" by (auto simp: assignTo_def)
  with Cons show ?case by simp
qed

lemma getById_map:
  "(\<And>x. idf (h x) = idf x) \<Longrightarrow> getById idf (map h xs) i = map_option h (getById idf xs i)"
  by (induction xs) (simp_all add: getById_def)

lemma distinct_ids_sort_filter:
  "distinct (map idf xs) \<Longrightarrow> distinct (map idf (sort_key k (filter P xs)))"
proof -
  assume "distinct (map idf xs)"
  then have "distinct (map idf (filter P xs))" by (rule distinct_map_filter)
  moreover have "mset (map idf (sort_key k (filter P xs))) = mset (map idf (filter P xs))"
    by simp
  ultimately show ?thesis by (metis mset_eq_imp_distinct_iff)
qed

lemma seeds_one_to_n:
  assumes "mset (map p_seed L) = mset (map Some [1..int (length L)])"
    and "p = sort_key seedOf (filter seeded L) @ filter (\<lambda>q. \<not> seeded q) L"
    and "i < length L"
  shows "p_seed (p ! i) = Some (int i + 1)"
proof -
  have mem: "p_seed q \<in> Some ` {1..int (length L)}" if "q \<in> set L" for q
  proof -
    from that have "p_seed q \<in> set (map p_seed L)" by simp
    also have "set (map p_seed L) = set (map Some [1..int (length L)])"
      using assms(1) by (rule mset_eq_setD)
    finally show ?thesis by simp
  qed
  have all: "seeded q \<and> p_seed q = Some (seedOf q)" if "q \<in> set L" for q
    using mem [OF that] by (auto simp: seeded_def seedOf_def)
  then have "filter seeded L = L" "filter (\<lambda>q. \<not> seeded q) L = []"
    by (simp_all add: filter_empty_conv)
  then have p: "p = sort_key seedOf L" using assms(2) by simp
  have "map seedOf L = map (\<lambda>s. case s of None \<Rightarrow> 0 | Some x \<Rightarrow> x) (map p_seed L)"
    by (simp add: seedOf_def [abs_def])
  then have "mset (map seedOf L) =
      image_mset (\<lambda>s. case s of None \<Rightarrow> 0 | Some x \<Rightarrow> x) (mset (map p_seed L))"
    by (simp only: mset_map)
  also have "\<dots> = mset [1..int (length L)]"
    by (simp only: assms(1)) (simp add: multiset.map_comp o_def)
  finally have m: "mset (map seedOf L) = mset [1..int (length L)]" .
  have "sort (map seedOf L) = map seedOf p"
    by (rule properties_for_sort) (simp_all add: p)
  moreover have "sort (map seedOf L) = [1..int (length L)]"
    by (rule properties_for_sort) (use m in simp_all)
  ultimately have "map seedOf p = [1..int (length L)]" by simp
  then have "map seedOf p ! i = [1..int (length L)] ! i" by simp
  moreover have "i < length p" using assms(3) by (simp add: p)
  ultimately have "seedOf (p ! i) = 1 + int i" using assms(3) by simp
  moreover have "p ! i \<in> set L"
    using \<open>i < length p\<close> nth_mem [of i p] by (simp add: p)
  ultimately show ?thesis using all by simp
qed

text \<open>
  C3. For a tournament whose participant list \<open>L\<close> has exactly \<open>participantCount\<close> entries
  and a store with distinct match ids, \<open>assignParticipants\<close> succeeds; the order it pairs
  from is \<open>p\<close>, the seeded entries of \<open>L\<close> by ascending seed (equal seeds in their order in
  \<open>L\<close>) followed by the unseeded entries in their order in \<open>L\<close>; for every \<open>i\<close> with
  \<open>2 * i < n\<close> the \<open>i\<close>-th first-round match by match number, when there is one, gets
  \<open>p[i]\<close> as participant 1, \<open>p[n - 1 - i]\<close> as participant 2 and status upcoming; every
  other match is unchanged. When the seeds of \<open>L\<close> are \<open>1 .. n\<close>, pair \<open>i\<close> is seed \<open>i + 1\<close>
  against seed \<open>n - i\<close>.
\<close>

theorem assignParticipants_seeding:
  assumes t: "getById t_id (tournaments d) tid = Some t"
    and roster: "int (length (getByTournament tid d)) = t_participantCount t"
    and ids: "distinct (map m_id (matches d))"
    and L: "L = getByTournament tid d"
    and p: "p = sort_key seedOf (filter seeded L) @ filter (\<lambda>q. \<not> seeded q) L"
    and F: "F = sort_key m_matchNumber
                  (filter (\<lambda>m. m_tournamentId m = tid \<and> m_round m = 1) (matches d))"
    and n: "n = length p"
  shows "\<exists>d'. assignParticipants tid d = (Inr (firstRoundOf tid d'), d') \<and>
           (\<forall>i. 2 * i < n \<and> i < length F \<longrightarrow>
              getById m_id (matches d') (m_id (F ! i)) =
                Some ((F ! i)\<lparr>m_participant1Id := Some (p_id (p ! i)),
                              m_participant2Id := Some (p_id (p ! (n - 1 - i))),
                              m_status := Upcoming\<rparr>)) \<and>
           (\<forall>x\<in>set (matches d).
              (\<forall>i. 2 * i < n \<and> i < length F \<longrightarrow> m_id x \<noteq> m_id (F ! i)) \<longrightarrow>
              getById m_id (matches d') (m_id x) = Some x) \<and>
           (mset (map p_seed L) = mset (map Some [1..int n]) \<longrightarrow>
              (\<forall>i. 2 * i < n \<longrightarrow>
                 p_seed (p ! i) = Some (int i + 1) \<and>
                 p_seed (p ! (n - 1 - i)) = Some (int n - int i)))"
proof -
  define pairs where "pairs = createSeedPairings p"
  define d' where "d' = d\<lparr>matches := map (fold (assignTo F) (enumerate 0 pairs)) (matches d)\<rparr>"
  have sorted: "sort_cmp bySeed (getByTournament tid d) = p"
    by (simp add: p L sort_cmp_bySeed)
  have first: "sort_cmp byMatchNumber (firstRoundOf tid d) = F"
    by (simp add: F firstRoundOf_def sort_cmp_byMatchNumber)
  have run: "assignParticipants tid d = (Inr (firstRoundOf tid d'), d')"
    using t roster
    by (simp add: assignParticipants_def Let_def sorted first pairs_def [symmetric]
        fold_assignStep [OF ids] d'_def)
  have nL: "n = length L"
    using sum_length_filter_compl [of seeded L] by (simp add: n p)
  have lp: "length pairs = (n + 1) div 2" by (simp add: pairs_def createSeedPairings_eq n)
  have lt: "(i < length pairs) = (2 * i < n)" for i unfolding lp by arith
  have pr: "pairs ! i = (p ! i, p ! (n - 1 - i))" if "2 * i < n" for i
    using that lt [of i] by (simp add: pairs_def createSeedPairings_eq n lp)
  have dF: "distinct (map m_id F)" unfolding F using ids by (rule distinct_ids_sort_filter)
  have Fmem: "F ! i \<in> set (matches d)" if "i < length F" for i
    using nth_mem [OF that] by (simp add: F)
  have g: "getById m_id (matches d') (m_id x) =
           Some (fold (assignTo F) (enumerate 0 pairs) x)" if "x \<in> set (matches d)" for x
    by (simp add: d'_def getById_map getById_distinct [OF ids that])
  have hit: "getById m_id (matches d') (m_id (F ! i)) =
                Some ((F ! i)\<lparr>m_participant1Id := Some (p_id (p ! i)),
                              m_participant2Id := Some (p_id (p ! (n - 1 - i))),
                              m_status := Upcoming\<rparr>)" if "2 * i < n \<and> i < length F" for i
  proof -
    from that have i: "i < length pairs" by (simp add: lt)
    have "fold (assignTo F) (enumerate 0 pairs) (F ! i) = assignPair (pairs ! i) (F ! i)"
      using fold_assignTo_hit [OF dF _ refl, of i 0 pairs] that i by simp
    then show ?thesis
      using that g [OF Fmem] by (simp add: pr assignPair_def)
  qed
  have miss: "getById m_id (matches d') (m_id x) = Some x"
    if x: "x \<in> set (matches d)"
      and no: "\<forall>i. 2 * i < n \<and> i < length F \<longrightarrow> m_id x \<noteq> m_id (F ! i)" for x
  proof (cases "m_id x \<in> m_id ` set F")
    case True
    then obtain i where i: "i < length F" "m_id x = m_id (F ! i)"
      by (auto simp: in_set_conv_nth)
    with no have "\<not> i < length pairs" by (auto simp: lt)
    then have "fold (assignTo F) (enumerate 0 pairs) x = x"
      using fold_assignTo_hit [OF dF i, of 0 pairs] by simp
    then show ?thesis using g [OF x] by simp
  next
    case False
    then show ?thesis using g [OF x] by (simp add: fold_assignTo_miss)
  qed
  have seeds: "p_seed (p ! i) = Some (int i + 1) \<and>
                 p_seed (p ! (n - 1 - i)) = Some (int n - int i)"
    if m: "mset (map p_seed L) = mset (map Some [1..int n])" and i: "2 * i < n" for i
  proof -
    have m': "mset (map p_seed L) = mset (map Some [1..int (length L)])" using m by (simp add: nL)
    have "i < length L" "n - 1 - i < length L" using i by (simp_all add: nL)
    from seeds_one_to_n [OF m' p this(1)] seeds_one_to_n [OF m' p this(2)] i
    show ?thesis by (simp add: of_nat_diff)
  qed
  from run hit miss seeds show ?thesis by blast
qed

lemma roster4_generate: "snd (generate 0 roster4) = generated4"
  by code_simp

theorem assignParticipants_seeding_witness:
  "\<exists>d'. assignParticipants 0 generated4 = (Inr (firstRoundOf 0 d'), d') \<and>
     getById m_id (matches d') 5 =
       Some ((newMatch 0 1 1)\<lparr>m_id := 5, m_participant1Id := Some 1, m_participant2Id := Some 4,
                               m_status := Upcoming\<rparr>) \<and>
     getById m_id (matches d') 6 =
       Some ((newMatch 0 1 2)\<lparr>m_id := 6, m_participant1Id := Some 2, m_participant2Id := Some 3,
                               m_status := Upcoming\<rparr>)"
proof -
  let ?t = "tournaments generated4 ! 0"
  let ?L = "getByTournament 0 generated4"
  let ?p = "sort_key seedOf (filter seeded ?L) @ filter (\<lambda>q. \<not> seeded q) ?L"
  let ?F = "sort_key m_matchNumber
                  (filter (\<lambda>m. m_tournamentId m = 0 \<and> m_round m = 1) (matches generated4))"
  have L: "?L = participants generated4"
    by (simp add: getByTournament_def generated4_def bracket4_def seededParticipant_def
        sort_cmp_def seedOr999_def)
  have p: "?p = participants generated4"
    unfolding L by (simp add: generated4_def bracket4_def seededParticipant_def seeded_def seedOf_def)
  have F: "?F = [(newMatch 0 1 1)\<lparr>m_id := 5\<rparr>, (newMatch 0 1 2)\<lparr>m_id := 6\<rparr>]"
    by (simp add: generated4_def newMatch_def)
  have t: "getById t_id (tournaments generated4) 0 = Some ?t"
    by (simp add: generated4_def bracket4_def getById_def)
  have roster: "int (length ?L) = t_participantCount ?t"
    unfolding L by (simp add: generated4_def bracket4_def)
  have ids: "distinct (map m_id (matches generated4))"
    by (simp add: generated4_def)
  let ?P = "participants generated4"
  let ?G = "[(newMatch 0 1 1)\<lparr>m_id := 5\<rparr>, (newMatch 0 1 2)\<lparr>m_id := 6\<rparr>]"
  have n: "4 = length ?P" by (simp add: generated4_def bracket4_def)
  from assignParticipants_seeding [OF t roster ids refl p [symmetric] F [symmetric] n] obtain d'
    where run: "assignParticipants 0 generated4 = (Inr (firstRoundOf 0 d'), d')"
      and hit: "\<forall>i. 2 * i < 4 \<and> i < length ?G \<longrightarrow>
              getById m_id (matches d') (m_id (?G ! i)) =
                Some ((?G ! i)\<lparr>m_participant1Id := Some (p_id (?P ! i)),
                              m_participant2Id := Some (p_id (?P ! (4 - 1 - i))),
                              m_status := Upcoming\<rparr>)"
    by blast
  from hit [rule_format, of 0] hit [rule_format, of 1]
  have "getById m_id (matches d') 5 =
       Some ((newMatch 0 1 1)\<lparr>m_id := 5, m_participant1Id := Some 1, m_participant2Id := Some 4,
                               m_status := Upcoming\<rparr>)"
    "getById m_id (matches d') 6 =
       Some ((newMatch 0 1 2)\<lparr>m_id := 6, m_participant1Id := Some 2, m_participant2Id := Some 3,
                               m_status := Upcoming\<rparr>)"
    by (simp_all add: generated4_def bracket4_def seededParticipant_def)
  with run show ?thesis by blast
qed

subsection \<open>Brackets built by generate\<close>

lemma getById_update:
  "(\<And>x. idf (f x) = idf x) \<Longrightarrow>
   getById idf (update idf i f xs) j =
     (if j = i then map_option f (getById idf xs j) else getById idf xs j)"
  by (induction xs) (auto simp: getById_def)

lemma numbered_replicate_bounds:
  "m \<in> set (numbered tid i n (replicate c r)) \<Longrightarrow>
   m_round m = r \<and> n \<le> m_matchNumber m \<and> m_matchNumber m < n + int c"
proof (induction c arbitrary: i n)
  case 0
  then show ?case by simp
next
  case (Suc c)
  from Suc.prems have "m = (newMatch tid r n)\<lparr>m_id := i\<rparr> \<or>
      m \<in> set (numbered tid (Suc i) (n + 1) (replicate c r))" by simp
  then show ?case
  proof
    assume "m = (newMatch tid r n)\<lparr>m_id := i\<rparr>"
    then show ?thesis by (simp add: newMatch_def)
  next
    assume "m \<in> set (numbered tid (Suc i) (n + 1) (replicate c r))"
    from Suc.IH [OF this] show ?thesis by simp
  qed
qed

lemma numbered_bounds:
  assumes "0 \<le> pc"
  shows "m \<in> set (numbered tid i n (roundsFrom pc K r)) \<Longrightarrow>
   r \<le> m_round m \<and> m_round m \<le> K \<and>
   n + (\<Sum>j = r..m_round m - 1. pc div 2 ^ nat j) \<le> m_matchNumber m \<and>
   m_matchNumber m < n + (\<Sum>j = r..m_round m - 1. pc div 2 ^ nat j) + pc div 2 ^ nat (m_round m)"
proof (induction "nat (K + 1 - r)" arbitrary: r i n)
  case 0
  then have "K < r" by simp
  with 0 show ?case by (simp add: roundsFrom_empty)
next
  case (Suc k)
  then have le: "r \<le> K" and k: "k = nat (K + 1 - (r + 1))" by simp_all
  define c where "c = nat (pc div 2 ^ nat r)"
  have c: "int c = pc div 2 ^ nat r"
    using assms by (simp add: c_def pos_imp_zdiv_nonneg_iff)
  from Suc.prems have "m \<in> set (numbered tid i n (replicate c r)) \<or>
      m \<in> set (numbered tid (i + c) (n + int c) (roundsFrom pc K (r + 1)))"
    by (simp add: roundsFrom_step [OF le] numbered_append c_def)
  then show ?case
  proof
    assume "m \<in> set (numbered tid i n (replicate c r))"
    from numbered_replicate_bounds [OF this] le show ?thesis by (simp add: c)
  next
    assume a: "m \<in> set (numbered tid (i + c) (n + int c) (roundsFrom pc K (r + 1)))"
    note ih = Suc.hyps(1) [OF k a]
    then have lt: "r < m_round m" by simp
    then have "{r..m_round m - 1} = insert r {r + 1..m_round m - 1}"
      by (intro int_interval_lower) simp
    then have "(\<Sum>j = r..m_round m - 1. pc div 2 ^ nat j) =
        pc div 2 ^ nat r + (\<Sum>j = r + 1..m_round m - 1. pc div 2 ^ nat j)" by simp
    with ih show ?thesis by (simp add: c)
  qed
qed

lemma sameKeys_refl [simp]: "sameKeys d d"
  by (simp add: sameKeys_def)

lemma sameKeys_trans: "sameKeys d d1 \<Longrightarrow> sameKeys d1 d2 \<Longrightarrow> sameKeys d d2"
  by (simp add: sameKeys_def)

lemma sameKeys_matches_update:
  assumes "\<And>x. m_tournamentId (f x) = m_tournamentId x \<and> m_round (f x) = m_round x \<and>
               m_matchNumber (f x) = m_matchNumber x"
  shows "sameKeys d (d\<lparr>matches := update m_id i f (matches d)\<rparr>)"
  using assms by (simp add: sameKeys_def matchKeys_def map_update_preserved)

lemma sameKeys_tournaments_update:
  assumes "\<And>x. tournamentKey (f x) = tournamentKey x"
  shows "sameKeys d (d\<lparr>tournaments := update t_id i f (tournaments d)\<rparr>)"
  using assms by (simp add: sameKeys_def matchKeys_def map_update_preserved)

lemma sameKeys_participants: "sameKeys d (d\<lparr>participants := ps\<rparr>)"
  by (simp add: sameKeys_def matchKeys_def)

lemma getById_tournamentKey:
  assumes "map tournamentKey ts' = map tournamentKey ts"
  shows "map_option tournamentKey (getById t_id ts' i) = map_option tournamentKey (getById t_id ts i)"
proof -
  have "length ts' = length ts" using assms by (rule map_eq_imp_length_eq)
  then show ?thesis
    using assms
  proof (induction ts' ts rule: list_induct2)
    case Nil
    then show ?case by (simp add: getById_def)
  next
    case (Cons x xs y ys)
    then have "t_id x = t_id y" by (simp add: tournamentKey_def)
    with Cons show ?case by (simp add: getById_def)
  qed
qed

lemma advanceWinner_sameKeys: "sameKeys d (snd (advanceWinner m w d))"
  by (auto simp: advanceWinner_def Let_def advanceUpdates_keys
      intro!: sameKeys_matches_update split: option.splits)

lemma currentRoundLoop_sameKeys: "sameKeys d (currentRoundLoop t ms r d)"
proof (induction t ms r d rule: currentRoundLoop.induct)
  case (1 t ms r d)
  show ?case
  proof (cases "r \<le> t_totalRounds t")
    case True
    show ?thesis
    proof (cases "list_all (\<lambda>m. m_status m = Completed) (filter (\<lambda>m. m_round m = r) ms)")
      case all: True
      with True "1.IH" [OF True refl refl] show ?thesis
        by (subst currentRoundLoop.simps) (simp add: Let_def)
    next
      case False
      with True show ?thesis
        by (subst currentRoundLoop.simps)
          (auto simp: Let_def tournamentKey_def intro!: sameKeys_tournaments_update)
    qed
  next
    case False
    then show ?thesis by (subst currentRoundLoop.simps) simp
  qed
qed

lemma updateCurrentRound_sameKeys: "sameKeys d (snd (updateCurrentRound tid d))"
  by (simp add: updateCurrentRound_def currentRoundLoop_sameKeys split: option.splits)

lemma finalizeTournament_sameKeys: "sameKeys d (snd (finalizeTournament today tid c l d))"
  by (simp add: finalizeTournament_def insert_result_def Let_def sameKeys_def matchKeys_def
      map_update_preserved tournamentKey_def split: option.splits)

lemma updateScore_sameKeys: "sameKeys d (snd (updateScore today i s1 s2 d))"
proof (cases "getById m_id (matches d) i")
  case None
  then show ?thesis by (simp add: updateScore_def)
next
  case (Some m)
  show ?thesis
  proof (cases "m_status m \<noteq> Pending \<and> m_participant1Id m \<noteq> None \<and> m_participant2Id m \<noteq> None \<and>
                0 \<le> s1 \<and> 0 \<le> s2 \<and> s1 \<noteq> s2")
    case False
    then show ?thesis
      using Some by (auto simp: updateScore_def split: option.splits)
  next
    case True
    then obtain a b where slots: "m_participant1Id m = Some a" "m_participant2Id m = Some b"
      by auto
    define w where "w = (if s1 > s2 then a else b)"
    define l where "l = (if s1 > s2 then b else a)"
    define d2 where "d2 = eliminate l (m_round m)
        (d\<lparr>matches := update m_id i (scoreUpdate s1 s2 w) (matches d)\<rparr>)"
    define d3 where "d3 = snd (advanceWinner m w d2)"
    have k2: "sameKeys d d2"
      unfolding d2_def eliminate_def
      by (rule sameKeys_trans [OF sameKeys_matches_update sameKeys_participants])
        (simp add: scoreUpdate_keys)
    have k3: "sameKeys d d3"
      unfolding d3_def by (rule sameKeys_trans [OF k2 advanceWinner_sameKeys])
    have k4: "sameKeys d (snd (finalizeTournament today (m_tournamentId m) w l d3))"
      by (rule sameKeys_trans [OF k3 finalizeTournament_sameKeys])
    have k5: "sameKeys d (snd (updateCurrentRound (m_tournamentId m) d3))"
      by (rule sameKeys_trans [OF k3 updateCurrentRound_sameKeys])
    have "snd (updateScore today i s1 s2 d) \<in>
            {d3, snd (finalizeTournament today (m_tournamentId m) w l d3),
             snd (updateCurrentRound (m_tournamentId m) d3)}"
      using Some True slots
      by (simp add: updateScore_def Let_def w_def [symmetric] l_def [symmetric]
          d2_def [symmetric] split del: if_split)
        (auto simp: d3_def split: prod.splits sum.splits option.splits if_splits)
    with k3 k4 k5 show ?thesis by auto
  qed
qed

lemma assignStep_sameKeys: "sameKeys d (assignStep F ip d)"
  by (auto simp: assignStep_def assignPair_def intro!: sameKeys_matches_update split: option.splits)

lemma fold_assignStep_sameKeys: "sameKeys d (fold (assignStep F) js d)"
proof (induction js arbitrary: d)
  case Nil
  then show ?case by simp
next
  case (Cons ip js)
  from sameKeys_trans [OF assignStep_sameKeys Cons.IH] show ?case by simp
qed

lemma assignParticipants_sameKeys: "sameKeys d (snd (assignParticipants tid d))"
  by (simp add: assignParticipants_def Let_def fold_assignStep_sameKeys split: option.splits)

lemma bracketShape_sameKeys:
  assumes "sameKeys d d'" "bracketShape tid d"
  shows "bracketShape tid d'"
proof -
  from assms(2) obtain t k where t: "getById t_id (tournaments d) tid = Some t"
    and tk: "t_participantCount t = 2 ^ k" "t_totalRounds t = int k"
    and rest: "(\<forall>(ti, r, n)\<in>set (matchKeys d). ti = tid \<longrightarrow>
           1 \<le> r \<and> r \<le> int k \<and>
           firstMatchNumberLoop (2 ^ k) r 1 1 \<le> n \<and>
           n < firstMatchNumberLoop (2 ^ k) r 1 1 + 2 ^ k div 2 ^ nat r)"
      "(\<forall>r. 1 \<le> r \<and> r \<le> int k \<longrightarrow>
           int (length (filter (\<lambda>(ti, r', n). ti = tid \<and> r' = r) (matchKeys d))) =
             2 ^ k div 2 ^ nat r)"
    unfolding bracketShape_def by blast
  from assms(1) have mk: "matchKeys d' = matchKeys d"
    and tks: "map tournamentKey (tournaments d') = map tournamentKey (tournaments d)"
    by (simp_all add: sameKeys_def)
  from getById_tournamentKey [OF tks, of tid] t
  obtain t' where t': "getById t_id (tournaments d') tid = Some t'"
    and "tournamentKey t' = tournamentKey t" by auto
  then have "t_participantCount t' = 2 ^ k" "t_totalRounds t' = int k"
    using tk by (simp_all add: tournamentKey_def)
  with t' rest show ?thesis unfolding bracketShape_def mk by blast
qed

lemma generate_shape:
  assumes t: "getById t_id (tournaments d0) tid = Some t"
    and pow: "t_participantCount t = 2 ^ k"
    and fresh: "filter (\<lambda>m. m_tournamentId m = tid) (matches d0) = []"
    and gen: "generate tid d0 = (Inr ms, d)"
  shows "bracketShape tid d"
proof -
  define N where "N = numbered tid (nextId d0) 1 (roundsFrom (2 ^ k) (int k) 1)"
  have draft: "t_status t = Draft"
    using gen t by (auto simp: generate_def split: if_splits)
  have "snd (generate tid d0) = d" using gen by simp
  then have d: "d = d0\<lparr>matches := matches d0 @ N, nextId := nextId d0 + length N,
        tournaments := update t_id tid
          (\<lambda>x. x\<lparr>t_status := Registration, t_totalRounds := int k\<rparr>) (tournaments d0)\<rparr>"
    unfolding generate_eq [OF t draft pow N_def] by simp
  have none: "m_tournamentId m \<noteq> tid" if "m \<in> set (matches d0)" for m
    using fresh that by (auto simp: filter_empty_conv)
  have t': "getById t_id (tournaments d) tid =
              Some (t\<lparr>t_status := Registration, t_totalRounds := int k\<rparr>)"
    unfolding d using getById_update_same [OF t] getById_Some_id [OF t] by simp
  have bounds: "1 \<le> r \<and> r \<le> int k \<and> firstMatchNumberLoop (2 ^ k) r 1 1 \<le> n \<and>
           n < firstMatchNumberLoop (2 ^ k) r 1 1 + 2 ^ k div 2 ^ nat r"
    if "(tid, r, n) \<in> set (matchKeys d)" for r n
  proof -
    from that obtain m where m: "m \<in> set (matches d)" "m_tournamentId m = tid"
      "m_round m = r" "m_matchNumber m = n"
      by (auto simp: matchKeys_def)
    with none have "m \<in> set N" by (auto simp: d)
    from numbered_bounds [OF _ this [unfolded N_def], of ] m show ?thesis
      by (simp add: firstMatchNumberLoop_sum)
  qed
  have count: "int (length (filter (\<lambda>(ti, r', n). ti = tid \<and> r' = r) (matchKeys d))) =
             2 ^ k div 2 ^ nat r" if r: "1 \<le> r \<and> r \<le> int k" for r
  proof -
    have "filter (\<lambda>m. m_tournamentId m = tid \<and> m_round m = r) (matches d0) = []"
      using none by (auto simp: filter_empty_conv)
    moreover have "filter (\<lambda>m. m_tournamentId m = tid \<and> m_round m = r) N =
                   filter (\<lambda>m. m_round m = r) N"
      by (rule filter_cong [OF refl]) (simp add: N_def numbered_fields)
    ultimately have "length (filter (\<lambda>(ti, r', n). ti = tid \<and> r' = r) (matchKeys d)) =
          length (filter (\<lambda>m. m_round m = r) N)"
      by (simp add: matchKeys_def d filter_map o_def)
    moreover have "(0::int) \<le> 2 ^ k div 2 ^ nat r" by (simp add: pos_imp_zdiv_nonneg_iff)
    ultimately show ?thesis
      using r by (simp add: N_def numbered_filter_round roundsFrom_count)
  qed
  show ?thesis
    unfolding bracketShape_def
    using t' pow bounds count by (intro exI [of _ "t\<lparr>t_status := Registration, t_totalRounds := int k\<rparr>"] exI [of _ k]) auto
qed

lemma built_shape: "built tid d \<Longrightarrow> bracketShape tid d"
proof (induction rule: built.induct)
  case (generated d0 t k ms d)
  from generated(1-4) show ?case by (rule generate_shape)
next
  case (assigned d tid' r d')
  from assignParticipants_sameKeys [of d tid'] assigned show ?case
    by (auto intro: bracketShape_sameKeys)
next
  case (scored d today matchId score1 score2 r' d')
  from updateScore_sameKeys [of d today matchId score1 score2] scored show ?case
    by (auto intro: bracketShape_sameKeys)
next
  case (rewritten d d')
  from rewritten.hyps(2) rewritten.IH show ?case by (rule bracketShape_sameKeys)
qed

lemma shape_destination:
  assumes shape: "bracketShape (m_tournamentId m) d"
    and m: "m \<in> set (matches d)"
    and t: "getById t_id (tournaments d) (m_tournamentId m) = Some t"
    and nonfinal: "m_round m < t_totalRounds t"
    and idx: "idx = m_matchNumber m - firstMatchNumberLoop (t_participantCount t) (m_round m) 1 1"
  shows "at_index (nextMatchesOf (m_tournamentId m) (m_round m + 1) d) (idx div 2) \<noteq> None"
proof -
  from shape t obtain k where tk: "t_participantCount t = 2 ^ k" "t_totalRounds t = int k"
    and b: "\<forall>(ti, r, n)\<in>set (matchKeys d). ti = m_tournamentId m \<longrightarrow>
           1 \<le> r \<and> r \<le> int k \<and>
           firstMatchNumberLoop (2 ^ k) r 1 1 \<le> n \<and>
           n < firstMatchNumberLoop (2 ^ k) r 1 1 + 2 ^ k div 2 ^ nat r"
    and c: "\<forall>r. 1 \<le> r \<and> r \<le> int k \<longrightarrow>
           int (length (filter (\<lambda>(ti, r', n). ti = m_tournamentId m \<and> r' = r) (matchKeys d))) =
             2 ^ k div 2 ^ nat r"
    unfolding bracketShape_def by auto
  have "(m_tournamentId m, m_round m, m_matchNumber m) \<in> set (matchKeys d)"
    using m by (auto simp: matchKeys_def)
  with b have r1: "1 \<le> m_round m"
    and lo: "firstMatchNumberLoop (2 ^ k) (m_round m) 1 1 \<le> m_matchNumber m"
    and hi: "m_matchNumber m < firstMatchNumberLoop (2 ^ k) (m_round m) 1 1 + 2 ^ k div 2 ^ nat (m_round m)"
    by auto
  have rk: "Suc (nat (m_round m)) \<le> k" using nonfinal r1 tk by simp
  have half: "(2::int) ^ k div 2 ^ nat (m_round m) = 2 * (2 ^ k div 2 ^ Suc (nat (m_round m)))"
  proof -
    have "(2::int) ^ k div 2 ^ nat (m_round m) = 2 ^ (k - nat (m_round m))"
      using rk by (intro int_pow_div) simp
    also have "k - nat (m_round m) = Suc (k - Suc (nat (m_round m)))" using rk by simp
    also have "(2::int) ^ Suc (k - Suc (nat (m_round m))) = 2 * 2 ^ (k - Suc (nat (m_round m)))"
      by simp
    also have "(2::int) ^ (k - Suc (nat (m_round m))) = 2 ^ k div 2 ^ Suc (nat (m_round m))"
      using rk by (simp only: int_pow_div)
    finally show ?thesis .
  qed
  have nat_next: "nat (m_round m + 1) = Suc (nat (m_round m))" using r1 by simp
  have "int (length (nextMatchesOf (m_tournamentId m) (m_round m + 1) d)) =
        int (length (filter (\<lambda>(ti, r', n). ti = m_tournamentId m \<and> r' = m_round m + 1) (matchKeys d)))"
    by (simp add: nextMatchesOf_def matchKeys_def filter_map o_def)
  also have "\<dots> = 2 ^ k div 2 ^ Suc (nat (m_round m))"
    using c [rule_format, of "m_round m + 1"] r1 nonfinal tk by (simp add: nat_next)
  finally have len: "int (length (nextMatchesOf (m_tournamentId m) (m_round m + 1) d)) =
        2 ^ k div 2 ^ Suc (nat (m_round m))" .
  have "0 \<le> idx" "idx < 2 * (2 ^ k div 2 ^ Suc (nat (m_round m)))"
    using lo hi by (simp_all add: idx tk half)
  then have "0 \<le> idx div 2" "idx div 2 < 2 ^ k div 2 ^ Suc (nat (m_round m))"
    by simp_all
  then show ?thesis by (simp add: at_index_def len)
qed

lemma generated4_assign: "snd (assignParticipants 0 generated4) = bracket4"
  by code_simp

subsection \<open>Elimination\<close>




subsection \<open>Match ids and completed matches in built brackets\<close>

lemma numbered_ids:
  "distinct (map m_id (numbered tid i n rs)) \<and> (\<forall>m\<in>set (numbered tid i n rs). i \<le> m_id m)"
proof (induction rs arbitrary: i n)
  case Nil
  then show ?case by simp
next
  case (Cons r rs)
  from Cons.IH [of "Suc i" "n + 1"] show ?case by (auto simp: newMatch_def)
qed

lemma set_update:
  "y \<in> set (update idf i f xs) \<Longrightarrow> y \<in> set xs \<or> (\<exists>x. getById idf xs i = Some x \<and> y = f x)"
  by (induction xs) (auto simp: getById_def split: if_splits)

lemma kept_refl [simp]: "kept tid d d"
  by (simp add: kept_def)

lemma kept_trans: "kept tid d d1 \<Longrightarrow> kept tid d1 d2 \<Longrightarrow> kept tid d d2"
  by (simp add: kept_def)

lemma kept_matches_update:
  assumes "\<And>x. m_id (f x) = m_id x"
    and "\<And>x. completedFilled tid (matches d) \<Longrightarrow> getById m_id (matches d) i = Some x \<Longrightarrow>
           m_tournamentId (f x) = tid \<Longrightarrow> m_status (f x) = Completed \<Longrightarrow> slotsFilled (f x)"
  shows "kept tid d (d\<lparr>matches := update m_id i f (matches d)\<rparr>)"
proof -
  have "completedFilled tid (update m_id i f (matches d))" if c: "completedFilled tid (matches d)"
    unfolding completedFilled_def
  proof (intro ballI impI)
    fix y assume y: "y \<in> set (update m_id i f (matches d))"
      "m_tournamentId y = tid \<and> m_status y = Completed"
    from set_update [OF y(1)] show "slotsFilled y"
    proof
      assume "y \<in> set (matches d)"
      with c y(2) show ?thesis by (simp add: completedFilled_def)
    next
      assume "\<exists>x. getById m_id (matches d) i = Some x \<and> y = f x"
      then obtain x where "getById m_id (matches d) i = Some x" "y = f x" by blast
      with assms(2) [OF c] y(2) show ?thesis by simp
    qed
  qed
  then show ?thesis by (simp add: kept_def map_update_preserved assms(1))
qed

lemma kept_other: "matches d' = matches d \<Longrightarrow> kept tid d d'"
  by (simp add: kept_def)

lemma advanceUpdates_filled:
  "m_status (advanceUpdates i w c x) = Completed \<Longrightarrow>
   m_status x = Completed \<and> (slotsFilled x \<longrightarrow> slotsFilled (advanceUpdates i w c x))"
  by (auto simp: advanceUpdates_def slotUpdate_def slotsFilled_def Let_def split: if_splits)

lemma advanceWinner_kept: "kept tid d (snd (advanceWinner m w d))"
proof -
  have "kept tid d (d\<lparr>matches := update m_id i (advanceUpdates j w c) (matches d)\<rparr>)" for i j c
  proof (rule kept_matches_update)
    fix x
    show "m_id (advanceUpdates j w c x) = m_id x" by (simp add: advanceUpdates_keys)
    assume c: "completedFilled tid (matches d)" and g: "getById m_id (matches d) i = Some x"
      and s: "m_tournamentId (advanceUpdates j w c x) = tid"
        "m_status (advanceUpdates j w c x) = Completed"
    from advanceUpdates_filled [OF s(2)] s(1) c getById_Some_mem [OF g]
    show "slotsFilled (advanceUpdates j w c x)"
      by (simp add: completedFilled_def advanceUpdates_keys)
  qed
  then show ?thesis
    by (auto simp: advanceWinner_def Let_def split: option.splits)
qed

lemma updateScore_kept: "kept tid d (snd (updateScore today i s1 s2 d))"
proof (cases "getById m_id (matches d) i")
  case None
  then show ?thesis by (simp add: updateScore_def)
next
  case (Some m)
  show ?thesis
  proof (cases "m_status m \<noteq> Pending \<and> m_participant1Id m \<noteq> None \<and> m_participant2Id m \<noteq> None \<and>
                0 \<le> s1 \<and> 0 \<le> s2 \<and> s1 \<noteq> s2")
    case False
    then show ?thesis
      using Some by (auto simp: updateScore_def split: option.splits)
  next
    case True
    then obtain a b where slots: "m_participant1Id m = Some a" "m_participant2Id m = Some b"
      by auto
    define w where "w = (if s1 > s2 then a else b)"
    define l where "l = (if s1 > s2 then b else a)"
    define d1 where "d1 = d\<lparr>matches := update m_id i (scoreUpdate s1 s2 w) (matches d)\<rparr>"
    define d2 where "d2 = eliminate l (m_round m) d1"
    define d3 where "d3 = snd (advanceWinner m w d2)"
    have k1: "kept tid d d1"
      unfolding d1_def
    proof (rule kept_matches_update)
      fix x
      show "m_id (scoreUpdate s1 s2 w x) = m_id x" by (simp add: scoreUpdate_keys)
      assume "getById m_id (matches d) i = Some x"
      with Some slots show "slotsFilled (scoreUpdate s1 s2 w x)"
        by (simp add: slotsFilled_def scoreUpdate_def)
    qed
    have k2: "kept tid d d2"
      by (rule kept_trans [OF k1]) (simp add: kept_def d2_def eliminate_def)
    have k3: "kept tid d d3"
      unfolding d3_def by (rule kept_trans [OF k2 advanceWinner_kept])
    have k4: "kept tid d (snd (finalizeTournament today (m_tournamentId m) w l d3))"
      by (rule kept_trans [OF k3], rule kept_other)
        (simp add: finalizeTournament_def insert_result_def Let_def split: option.splits)
    have k5: "kept tid d (snd (updateCurrentRound (m_tournamentId m) d3))"
      by (rule kept_trans [OF k3], rule kept_other)
        (simp add: updateCurrentRound_def currentRoundLoop_fields split: option.splits)
    have "snd (updateScore today i s1 s2 d) \<in>
            {d3, snd (finalizeTournament today (m_tournamentId m) w l d3),
             snd (updateCurrentRound (m_tournamentId m) d3)}"
      using Some True slots
      by (simp add: updateScore_def Let_def w_def [symmetric] l_def [symmetric]
          d1_def [symmetric] d2_def [symmetric] split del: if_split)
        (auto simp: d3_def split: prod.splits sum.splits option.splits if_splits)
    with k3 k4 k5 show ?thesis by auto
  qed
qed

lemma assignStep_kept: "kept tid d (assignStep F ip d)"
proof (cases "at_index F (int (fst ip))")
  case None
  then show ?thesis by (simp add: assignStep_def)
next
  case (Some fm)
  have "kept tid d (d\<lparr>matches := update m_id (m_id fm) (assignPair (snd ip)) (matches d)\<rparr>)"
    by (rule kept_matches_update) (simp_all add: assignPair_def)
  with Some show ?thesis by (simp add: assignStep_def)
qed

lemma fold_assignStep_kept: "kept tid d (fold (assignStep F) js d)"
proof (induction js arbitrary: d)
  case Nil
  then show ?case by simp
next
  case (Cons ip js)
  from kept_trans [OF assignStep_kept Cons.IH] show ?case by simp
qed

lemma assignParticipants_kept: "kept tid d (snd (assignParticipants tid' d))"
  by (simp add: assignParticipants_def Let_def fold_assignStep_kept split: option.splits)

lemma kept_inv:
  assumes "kept tid d d'" "distinct (map m_id (matches d)) \<and> completedFilled tid (matches d)"
  shows "distinct (map m_id (matches d')) \<and> completedFilled tid (matches d')"
proof -
  from assms(1) have "map m_id (matches d') = map m_id (matches d)" by (simp add: kept_def)
  then have "distinct (map m_id (matches d')) = distinct (map m_id (matches d))" by simp
  with assms show ?thesis by (simp add: kept_def)
qed

lemma built_kept: "built tid d \<Longrightarrow> distinct (map m_id (matches d)) \<and> completedFilled tid (matches d)"
proof (induction rule: built.induct)
  case (generated d0 t k ms d)
  define N where "N = numbered tid (nextId d0) 1 (roundsFrom (2 ^ k) (int k) 1)"
  have draft: "t_status t = Draft"
    using generated(1,4) by (auto simp: generate_def split: if_splits)
  have "snd (generate tid d0) = d" using generated(4) by simp
  then have d: "matches d = matches d0 @ N"
    unfolding generate_eq [OF generated(1) draft generated(2) N_def] by auto
  have N: "distinct (map m_id N)" "\<And>y. y \<in> set N \<Longrightarrow> nextId d0 \<le> m_id y"
    using numbered_ids [of tid "nextId d0" 1 "roundsFrom (2 ^ k) (int k) 1"]
    by (simp_all add: N_def)
  have "m_id x \<noteq> m_id y" if "x \<in> set (matches d0)" "y \<in> set N" for x y
  proof -
    from that(1) generated(6) have "m_id x < nextId d0" by simp
    with N(2) [OF that(2)] show ?thesis by simp
  qed
  then have "m_id ` set (matches d0) \<inter> m_id ` set N = {}" by blast
  then have "distinct (map m_id (matches d))"
    using generated(5) N(1) by (simp add: d)
  moreover have "completedFilled tid (matches d)"
    unfolding completedFilled_def
  proof (intro ballI impI)
    fix x assume x: "x \<in> set (matches d)" "m_tournamentId x = tid \<and> m_status x = Completed"
    have "x \<notin> set (matches d0)" using generated(3) x(2) by (auto simp: filter_empty_conv)
    with x(1) have "x \<in> set N" by (simp add: d)
    from numbered_fields [OF this [unfolded N_def]] x(2) show "slotsFilled x" by simp
  qed
  ultimately show ?case by simp
next
  case (assigned d tid' r d')
  have "kept tid d d'" using assignParticipants_kept [of tid d tid'] assigned(2) by simp
  from kept_inv [OF this assigned(3)] show ?case .
next
  case (scored d today matchId score1 score2 r' d')
  have "kept tid d d'" using updateScore_kept [of tid d today matchId score1 score2] scored(2) by simp
  from kept_inv [OF this scored(3)] show ?case .
next
  case (rewritten d d')
  from kept_inv [OF rewritten.hyps(3) rewritten.IH] show ?case .
qed

lemma lowestIncomplete_iff:
  "lowestIncomplete ms K c =
     (1 \<le> c \<and> c \<le> K \<and> incompleteRound ms c \<and> (\<forall>j. 1 \<le> j \<and> j < c \<longrightarrow> \<not> incompleteRound ms j))"
  by (auto simp: lowestIncomplete_def list_all_iff)

lemma lowestIncomplete_exists:
  assumes "1 \<le> c" "c \<le> K" "incompleteRound ms c"
  shows "\<exists>c'. lowestIncomplete ms K c'"
  using assms
proof (induction "nat c" arbitrary: c rule: less_induct)
  case less
  show ?case
  proof (cases "\<exists>j. 1 \<le> j \<and> j < c \<and> incompleteRound ms j")
    case True
    then obtain j where j: "1 \<le> j" "j < c" "incompleteRound ms j" by blast
    then have "nat j < nat c" by simp
    from less.hyps [OF this j(1) _ j(3)] j(2) less.prems(2) show ?thesis by simp
  next
    case False
    with less.prems have "lowestIncomplete ms K c" by (auto simp: lowestIncomplete_iff)
    then show ?thesis ..
  qed
qed

lemma advanceUpdates_status:
  "slotsFilled c \<Longrightarrow> m_status (advanceUpdates i w (Some c) c) = Upcoming"
  by (auto simp: advanceUpdates_def slotUpdate_def slotsFilled_def Let_def)

lemma updateScore_destination_record:
  assumes m: "getById m_id (matches d) matchId = Some m"
    and t: "getById t_id (tournaments d) (m_tournamentId m) = Some t"
    and nonfinal: "m_round m < t_totalRounds t"
    and ids: "distinct (map m_id (matches d))"
    and ok: "updateScore today matchId score1 score2 d = (Inr r, d')"
    and slots: "m_participant1Id m = Some a" "m_participant2Id m = Some b"
    and w: "w = (if score1 > score2 then a else b)"
    and idx: "idx = m_matchNumber m - firstMatchNumberLoop (t_participantCount t) (m_round m) 1 1"
    and dest: "at_index (nextMatchesOf (m_tournamentId m) (m_round m + 1) d) (idx div 2) = Some dm"
  shows "matches d' = update m_id (m_id dm) (advanceUpdates idx w (Some dm))
            (update m_id matchId (scoreUpdate score1 score2 w) (matches d))"
    and "dm \<in> set (matches d)" and "m_tournamentId dm = m_tournamentId m"
    and "m_round dm = m_round m + 1" and "m_id dm \<noteq> matchId"
    and "getById m_id (matches d') (m_id dm) = Some (advanceUpdates idx w (Some dm) dm)"
proof -
  define ms1 where "ms1 = update m_id matchId (scoreUpdate score1 score2 w) (matches d)"
  show dm: "dm \<in> set (matches d)" "m_tournamentId dm = m_tournamentId m"
    "m_round dm = m_round m + 1"
    using at_index_mem [OF dest] by (simp_all add: nextMatchesOf_mem)
  show ne: "m_id dm \<noteq> matchId"
  proof
    assume "m_id dm = matchId"
    then have "getById m_id (matches d) matchId = Some dm"
      using getById_distinct [OF ids dm(1)] by simp
    with m dm(3) show False by simp
  qed
  have g1: "getById m_id ms1 (m_id dm) = Some dm"
    unfolding ms1_def using ids dm(1) ne
    by (rule getById_update_distinct_other) (simp add: scoreUpdate_keys)
  show ms': "matches d' = update m_id (m_id dm) (advanceUpdates idx w (Some dm))
            (update m_id matchId (scoreUpdate score1 score2 w) (matches d))"
    using updateScore_nonfinal_matches [OF m t nonfinal ok slots w idx ms1_def] dest g1
    by (simp add: ms1_def)
  show "getById m_id (matches d') (m_id dm) = Some (advanceUpdates idx w (Some dm) dm)"
    unfolding ms' ms1_def [symmetric] using g1
    by (rule getById_update_same) (simp add: advanceUpdates_keys)
qed

lemma built_incomplete_after:
  assumes b: "built (m_tournamentId m) d"
    and m: "getById m_id (matches d) matchId = Some m"
    and t: "getById t_id (tournaments d) (m_tournamentId m) = Some t"
    and nonfinal: "m_round m \<noteq> t_totalRounds t"
    and ok: "updateScore today matchId score1 score2 d = (Inr r, d')"
  shows "\<exists>c. lowestIncomplete (filter (\<lambda>x. m_tournamentId x = m_tournamentId m) (matches d'))
              (t_totalRounds t) c"
proof -
  from built_kept [OF b] have ids: "distinct (map m_id (matches d))"
    and cf: "completedFilled (m_tournamentId m) (matches d)" by simp_all
  from built_shape [OF b] have shape: "bracketShape (m_tournamentId m) d" .
  have mm: "m \<in> set (matches d)" using m by (rule getById_Some_mem)
  have r: "1 \<le> m_round m" "m_round m \<le> t_totalRounds t"
  proof -
    from shape t obtain k where k: "t_totalRounds t = int k"
      and bnd: "\<forall>(ti, r, n)\<in>set (matchKeys d). ti = m_tournamentId m \<longrightarrow>
           1 \<le> r \<and> r \<le> int k \<and>
           firstMatchNumberLoop (2 ^ k) r 1 1 \<le> n \<and>
           n < firstMatchNumberLoop (2 ^ k) r 1 1 + 2 ^ k div 2 ^ nat r"
      unfolding bracketShape_def by auto
    have "(m_tournamentId m, m_round m, m_matchNumber m) \<in> set (matchKeys d)"
      using mm by (auto simp: matchKeys_def)
    with bnd k show "1 \<le> m_round m" "m_round m \<le> t_totalRounds t" by auto
  qed
  with nonfinal have lt: "m_round m < t_totalRounds t" by simp
  from updateScore_ok_pre [OF m ok] obtain a b
    where slots: "m_participant1Id m = Some a" "m_participant2Id m = Some b" by auto
  define w where "w = (if score1 > score2 then a else b)"
  define idx where "idx = m_matchNumber m - firstMatchNumberLoop (t_participantCount t) (m_round m) 1 1"
  from shape_destination [OF shape mm t lt idx_def] obtain dm
    where dest: "at_index (nextMatchesOf (m_tournamentId m) (m_round m + 1) d) (idx div 2) = Some dm"
    by auto
  note rec = updateScore_destination_record [OF m t lt ids ok slots w_def idx_def dest]
  define dm' where "dm' = advanceUpdates idx w (Some dm) dm"
  have in': "dm' \<in> set (matches d')"
    using getById_Some_mem [OF rec(6)] by (simp add: dm'_def)
  have keys: "m_tournamentId dm' = m_tournamentId m" "m_round dm' = m_round m + 1"
    by (simp_all add: dm'_def advanceUpdates_keys rec(3,4))
  have undone: "m_status dm' \<noteq> Completed"
  proof
    assume c: "m_status dm' = Completed"
    from advanceUpdates_filled [OF c [unfolded dm'_def]] have "m_status dm = Completed" by simp
    with cf rec(2,3) have "slotsFilled dm" by (simp add: completedFilled_def)
    from advanceUpdates_status [OF this, of idx w] c show False by (simp add: dm'_def)
  qed
  have "incompleteRound (filter (\<lambda>x. m_tournamentId x = m_tournamentId m) (matches d'))
          (m_round m + 1)"
    unfolding incompleteRound_def using in' keys undone by auto
  moreover have "1 \<le> m_round m + 1" "m_round m + 1 \<le> t_totalRounds t" using r(1) lt by simp_all
  ultimately show ?thesis by (intro lowestIncomplete_exists)
qed

subsection \<open>The current round after a report\<close>

text \<open>
  C6. After a successful \<open>updateScore\<close> on a match that is not in the final round, the
  tournament's current round is the lowest round of \<open>1 .. totalRounds\<close> that has a match of
  the tournament that is not completed: whenever \<open>c\<close> is that round the tournament record is
  the old one with current round \<open>c\<close> (so it is left as it is when the current round
  already is \<open>c\<close>), and in a store that holds a bracket built by \<open>generate\<close> there is such
  a round. After a successful report on the final the current round is \<open>totalRounds\<close>.
\<close>

theorem currentRound_tracks:
  assumes m: "getById m_id (matches d) matchId = Some m"
    and t: "getById t_id (tournaments d) (m_tournamentId m) = Some t"
    and ok: "updateScore today matchId score1 score2 d = (Inr r, d')"
    and ms': "ms' = filter (\<lambda>x. m_tournamentId x = m_tournamentId m) (matches d')"
  shows "\<exists>t'. getById t_id (tournaments d') (m_tournamentId m) = Some t' \<and>
           (m_round m \<noteq> t_totalRounds t \<longrightarrow>
              (\<forall>c. lowestIncomplete ms' (t_totalRounds t) c \<longrightarrow> t' = t\<lparr>t_currentRound := c\<rparr>) \<and>
              (built (m_tournamentId m) d \<longrightarrow> (\<exists>c. lowestIncomplete ms' (t_totalRounds t) c))) \<and>
           (m_round m = t_totalRounds t \<longrightarrow> t_currentRound t' = t_totalRounds t)"
proof -
  from currentRound_after_score [OF m t ok ms'] obtain t'
    where t': "getById t_id (tournaments d') (m_tournamentId m) = Some t'"
      and a: "m_round m \<noteq> t_totalRounds t \<longrightarrow>
              (\<forall>c. 1 \<le> c \<and> c \<le> t_totalRounds t \<and> incompleteRound ms' c \<and>
                   (\<forall>j. 1 \<le> j \<and> j < c \<longrightarrow> \<not> incompleteRound ms' j) \<longrightarrow>
                   t' = t\<lparr>t_currentRound := c\<rparr>)"
      and b: "m_round m = t_totalRounds t \<longrightarrow> t_currentRound t' = t_totalRounds t"
    by blast
  have c: "\<exists>c. lowestIncomplete ms' (t_totalRounds t) c"
    if "m_round m \<noteq> t_totalRounds t" "built (m_tournamentId m) d"
    unfolding ms' using that(2) m t that(1) ok by (rule built_incomplete_after)
  from t' a b c show ?thesis
    by (intro exI [of _ t']) (simp add: lowestIncomplete_iff)
qed

lemma built_bracket4: "built 0 bracket4"
proof -
  have r: "getById t_id (tournaments roster4) 0 = Some (tournaments roster4 ! 0)"
    "t_participantCount (tournaments roster4 ! 0) = 2 ^ 2"
    "filter (\<lambda>m. m_tournamentId m = 0) (matches roster4) = []"
    by (simp_all add: roster4_def getById_def)
  have g: "generate 0 roster4 = (fst (generate 0 roster4), generated4)"
    using roster4_generate by (simp add: prod_eq_iff)
  have "\<not> isl (fst (generate 0 roster4))" by code_simp
  then have "generate 0 roster4 = (Inr (projr (fst (generate 0 roster4))), generated4)"
    using g by (cases "fst (generate 0 roster4)") auto
  from built.generated [OF r this] have "built 0 generated4" by (simp add: roster4_def)
  moreover have "assignParticipants 0 generated4 = (fst (assignParticipants 0 generated4), bracket4)"
    using generated4_assign by (simp add: prod_eq_iff)
  ultimately show ?thesis by (rule built.assigned)
qed

theorem currentRound_tracks_witness:
  "(\<exists>t'. getById t_id (tournaments (snd (updateScore ''2026-01-01'' 5 3 1 bracket4))) 0 = Some t' \<and>
         t_currentRound t' = 1) \<and>
   (\<exists>c. lowestIncomplete (matches (snd (updateScore ''2026-01-01'' 5 3 1 bracket4))) 2 c) \<and>
   (\<exists>t'. getById t_id (tournaments (snd (updateScore ''2026-01-03'' 7 2 1 semisScored4))) 0 = Some t' \<and>
         t_currentRound t' = 2)"
proof -
  let ?m = "matches bracket4 ! 0" and ?t = "tournaments bracket4 ! 0"
  let ?out = "updateScore ''2026-01-01'' 5 3 1 bracket4"
  let ?ms = "filter (\<lambda>x. m_tournamentId x = m_tournamentId ?m) (matches (snd ?out))"
  have m: "getById m_id (matches bracket4) 5 = Some ?m"
    by (simp add: bracket4_def getById_def)
  have t: "getById t_id (tournaments bracket4) (m_tournamentId ?m) = Some ?t"
    by (simp add: bracket4_def getById_def)
  have "\<not> isl (fst ?out)" by code_simp
  then have ok: "?out = (Inr (projr (fst ?out)), snd ?out)" by (rule outcome_Inr)
  have low: "lowestIncomplete ?ms (t_totalRounds ?t) 1" by code_simp
  have all: "filter (\<lambda>x. m_tournamentId x = 0) (matches (snd ?out)) = matches (snd ?out)"
    by code_simp
  have e: "m_tournamentId ?m = 0" "t_totalRounds ?t = 2"
    by (simp_all add: bracket4_def)
  have ne: "m_round ?m \<noteq> t_totalRounds ?t" by (simp add: bracket4_def)
  have b: "built (m_tournamentId ?m) bracket4" using built_bracket4 by (simp add: e)
  from currentRound_tracks [OF m t ok refl] ne obtain t'
    where t': "getById t_id (tournaments (snd ?out)) (m_tournamentId ?m) = Some t'"
      and c: "\<forall>c. lowestIncomplete ?ms (t_totalRounds ?t) c \<longrightarrow> t' = ?t\<lparr>t_currentRound := c\<rparr>"
      and x: "built (m_tournamentId ?m) bracket4 \<longrightarrow> (\<exists>c. lowestIncomplete ?ms (t_totalRounds ?t) c)"
    by blast
  from c low have "t' = ?t\<lparr>t_currentRound := 1\<rparr>" by blast
  then have "t_currentRound t' = 1" by simp
  with t' have 1: "\<exists>t'. getById t_id (tournaments (snd ?out)) 0 = Some t' \<and> t_currentRound t' = 1"
    by (auto simp: e)
  from x b have 2: "\<exists>c. lowestIncomplete (matches (snd ?out)) 2 c"
    by (simp add: e all)
  let ?m2 = "matches semisScored4 ! 2" and ?t2 = "tournaments semisScored4 ! 0"
  let ?out2 = "updateScore ''2026-01-03'' 7 2 1 semisScored4"
  have m2: "getById m_id (matches semisScored4) 7 = Some ?m2"
    by (simp add: semisScored4_def getById_def)
  have t2: "getById t_id (tournaments semisScored4) (m_tournamentId ?m2) = Some ?t2"
    by (simp add: semisScored4_def getById_def)
  have "\<not> isl (fst ?out2)" by code_simp
  then have ok2: "?out2 = (Inr (projr (fst ?out2)), snd ?out2)" by (rule outcome_Inr)
  have e2: "m_tournamentId ?m2 = 0" "m_round ?m2 = t_totalRounds ?t2" "t_totalRounds ?t2 = 2"
    by (simp_all add: semisScored4_def)
  from currentRound_tracks [OF m2 t2 ok2 refl]
  have 3: "\<exists>t'. getById t_id (tournaments (snd ?out2)) 0 = Some t' \<and> t_currentRound t' = 2"
    unfolding e2 by auto
  from 1 2 3 show ?thesis by blast
qed

subsection \<open>Fair play\<close>


























lemma slotIds_scoreUpdate [simp]: "slotIds (scoreUpdate s1 s2 w x) = slotIds x"
  by (simp add: slotIds_def scoreUpdate_def)

lemma slotOf_scoreUpdate [simp]: "slotOf s (scoreUpdate s1 s2 w x) = slotOf s x"
  by (simp add: slotOf_def scoreUpdate_def)

lemma slotOf_slotIds: "slotOf s x = Some i \<Longrightarrow> i \<in> slotIds x"
  by (auto simp: slotOf_def slotIds_def split: if_splits)








lemma slotIds_assignPair [simp]: "slotIds (assignPair (a, b) x) = {p_id a, p_id b}"
  by (auto simp: slotIds_def assignPair_def)

lemma assignPair_fields [simp]:
  "m_round (assignPair pr x) = m_round x" "m_tournamentId (assignPair pr x) = m_tournamentId x"
  "m_status (assignPair pr x) = Upcoming" "m_id (assignPair pr x) = m_id x"
  "m_participant1Id (assignPair pr x) = Some (p_id (fst pr))"
  "m_participant2Id (assignPair pr x) = Some (p_id (snd pr))"
  by (simp_all add: assignPair_def)







lemma eliminatedIds_list:
  "eliminatedIds d = set (map p_id (filter (\<lambda>p. p_status p = Eliminated) (participants d)))"
  by (auto simp: eliminatedIds_def)

subsection \<open>Elimination under fair play\<close>



subsection \<open>Starting a tournament and changing its status\<close>

text \<open>\<open>start\<close> seeds the first round and then writes the status; a failed \<open>start\<close>
  leaves the store as it was. Neither \<open>start\<close> nor \<open>updateStatus\<close> leaves the stores
  that hold a built bracket, and a status change does not leave the stores reached by fair
  play. The started tournament of four is an example of both.\<close>

lemma tournamentKey_status [simp]: "tournamentKey (t\<lparr>t_status := s\<rparr>) = tournamentKey t"
  by (simp add: tournamentKey_def)


lemma start_Inr:
  assumes "start tid d = (Inr x, d')"
  shows "\<exists>fr d1. assignParticipants tid d = (Inr fr, d1) \<and>
           d' = d1\<lparr>tournaments := update t_id tid (\<lambda>t. t\<lparr>t_status := Ongoing\<rparr>) (tournaments d1)\<rparr>"
proof (cases "assignParticipants tid d")
  case (Pair r d1)
  with assms show ?thesis
    by (cases r) (auto simp: start_def Let_def split: option.splits)
qed





lemma updateStatus_writes:
  "updateStatus tid' st d = (r, d') \<Longrightarrow>
   matches d' = matches d \<and> participants d' = participants d \<and> results d' = results d \<and>
   map tournamentKey (tournaments d') = map tournamentKey (tournaments d)"
  by (auto simp: updateStatus_def Let_def map_update_preserved split: option.splits)

lemma built_updateStatus:
  assumes "built tid d" "updateStatus tid' st d = (r, d')"
  shows "built tid d'"
proof -
  note w = updateStatus_writes [OF assms(2)]
  have "sameKeys d d'" using w by (simp add: sameKeys_def matchKeys_def)
  moreover have "kept tid d d'" using w by (simp add: kept_other)
  ultimately show ?thesis using assms(1) by (auto intro: built.rewritten)
qed

lemma played_updateStatus:
  assumes "played tid d" "updateStatus tid' st d = (r, d')"
  shows "played tid d'"
  using assms(1) updateStatus_writes [OF assms(2)] by (auto intro: played.restated)

lemma played_start:
  assumes "getById t_id (tournaments d0) tid = Some t" "t_participantCount t = 2 ^ k"
    "filter (\<lambda>m. m_tournamentId m = tid) (matches d0) = []"
    "generate tid d0 = (Inr ms, d1)"
    "distinct (map m_id (matches d0))" "\<forall>m\<in>set (matches d0). m_id m < nextId d0"
    "filter (\<lambda>r. r_tournamentId r = tid) (results d0) = []"
    "distinct (map p_id (participants d0))"
    "\<forall>p\<in>set (participants d0). p_tournamentId p = tid \<longrightarrow> p_status p \<noteq> Eliminated"
    and s: "start tid d1 = (Inr x, d)"
  shows "played tid d"
proof -
  from start_Inr [OF s] obtain fr d2 where
    a: "assignParticipants tid d1 = (Inr fr, d2)"
    and d: "d = d2\<lparr>tournaments := update t_id tid (\<lambda>t. t\<lparr>t_status := Ongoing\<rparr>) (tournaments d2)\<rparr>"
    by blast
  from assms(1-9) a have "played tid d2" by (rule played.seeded)
  then show ?thesis
    by (rule played.restated) (simp_all add: d map_update_preserved)
qed

lemma generated4_start: "snd (start 0 generated4) = started4"
  by code_simp


lemma played_started4: "played 0 started4"
proof -
  have r: "getById t_id (tournaments roster4) 0 = Some (tournaments roster4 ! 0)"
    "t_participantCount (tournaments roster4 ! 0) = 2 ^ 2"
    "filter (\<lambda>m. m_tournamentId m = 0) (matches roster4) = []"
    by (simp_all add: roster4_def getById_def)
  have g: "generate 0 roster4 = (fst (generate 0 roster4), generated4)"
    using roster4_generate by (simp add: prod_eq_iff)
  have "\<not> isl (fst (generate 0 roster4))" by code_simp
  then have g: "generate 0 roster4 = (Inr (projr (fst (generate 0 roster4))), generated4)"
    using g by (cases "fst (generate 0 roster4)") auto
  have a: "start 0 generated4 = (fst (start 0 generated4), started4)"
    using generated4_start by (simp add: prod_eq_iff)
  have "\<not> isl (fst (start 0 generated4))" by code_simp
  then have a: "start 0 generated4 = (Inr (projr (fst (start 0 generated4))), started4)"
    using a by (cases "fst (start 0 generated4)") auto
  show ?thesis
    by (rule played_start [OF r g _ _ _ _ _ a])
      (simp_all add: roster4_def seededParticipant_def)
qed

subsection \<open>A destination that is missing\<close>




end
